theory Spec2Isabelle
  imports Main "HOL-Library.Multiset"
begin

section \<open>Severity levels\<close>

text \<open>
  \<^verbatim>\<open>enum class log_level : std::uint8_t { Trace, Info, Warn, Error, Fatal, None };\<close>
  The enumerator \<^verbatim>\<open>None\<close> is written \<open>None_level\<close>, since \<open>None\<close> is the empty
  option in HOL. Comparison of a scoped enumeration compares the underlying values,
  which are 0 to 5 in declaration order.
\<close>

datatype log_level = Trace | Info | Warn | Error | Fatal | None_level

fun level_value :: "log_level \<Rightarrow> nat" where
  "level_value Trace = 0"
| "level_value Info = 1"
| "level_value Warn = 2"
| "level_value Error = 3"
| "level_value Fatal = 4"
| "level_value None_level = 5"

definition level_ge :: "log_level \<Rightarrow> log_level \<Rightarrow> bool" where
  "level_ge a b = (level_value b \<le> level_value a)"

section \<open>The environment: files, the console, the clock, threads\<close>

text \<open>
  The sink writes through the C++ standard library. What the library does is not code
  of the repository; it is modelled here from the C++17 standard, clause by clause, and
  each modelling decision is stated where it is made.

  A \<open>world\<close> holds everything outside the logger object: the contents of the files on
  disk, which paths the operating system lets a process open for writing (the parent
  directory exists, permissions allow it), the characters that have reached the console
  device, and the characters still held in the buffer of \<^verbatim>\<open>std::clog\<close>, which is a
  buffered stream.
\<close>

type_synonym path = string

type_synonym thread_id = nat

record world =
  files :: "path \<Rightarrow> string option"
  can_open :: "path \<Rightarrow> bool"
  console :: string
  clog_pending :: string

text \<open>
  The open mode of \<^verbatim>\<open>std::basic_filebuf::open\<close>, and the table of [filebuf.members]
  that maps it to the mode of the C library's \<^verbatim>\<open>fopen\<close>. Only the rows that write
  are kept; \<^verbatim>\<open>binary\<close> adds \<^verbatim>\<open>b\<close> to the mode string and changes nothing else here.
  A combination outside the table makes the open fail.
\<close>

record openmode =
  ios_app :: bool
  ios_binary :: bool
  ios_in :: bool
  ios_out :: bool
  ios_trunc :: bool

datatype fopen_mode = Mode_w | Mode_a | Mode_r | Mode_r_plus | Mode_w_plus | Mode_a_plus

definition fopen_mode_of :: "openmode \<Rightarrow> fopen_mode option" where
  "fopen_mode_of m =
     (if ios_out m \<and> \<not> ios_in m \<and> \<not> ios_app m then Some Mode_w
      else if \<not> ios_in m \<and> ios_app m \<and> \<not> ios_trunc m then Some Mode_a
      else if ios_in m \<and> \<not> ios_out m \<and> \<not> ios_app m \<and> \<not> ios_trunc m then Some Mode_r
      else if ios_in m \<and> ios_out m \<and> \<not> ios_app m \<and> \<not> ios_trunc m then Some Mode_r_plus
      else if ios_in m \<and> ios_out m \<and> \<not> ios_app m \<and> ios_trunc m then Some Mode_w_plus
      else if ios_in m \<and> ios_app m \<and> \<not> ios_trunc m then Some Mode_a_plus
      else None)"

text \<open>
  What \<^verbatim>\<open>fopen\<close> does to the file system. The writing modes create a missing file;
  \<^verbatim>\<open>w\<close> and \<^verbatim>\<open>w+\<close> empty an existing one; \<^verbatim>\<open>a\<close> and \<^verbatim>\<open>a+\<close> keep it;
  \<^verbatim>\<open>r\<close> and \<^verbatim>\<open>r+\<close> need the file to exist. The result is \<open>None\<close> when the open
  fails.
\<close>

definition content_of :: "world \<Rightarrow> path \<Rightarrow> string" where
  "content_of w p = (case files w p of None \<Rightarrow> [] | Some c \<Rightarrow> c)"

definition fopen :: "path \<Rightarrow> fopen_mode \<Rightarrow> world \<Rightarrow> world option" where
  "fopen p m w =
     (if \<not> can_open w p then None
      else case m of
        Mode_w \<Rightarrow> Some (w\<lparr>files := (files w)(p \<mapsto> [])\<rparr>)
      | Mode_w_plus \<Rightarrow> Some (w\<lparr>files := (files w)(p \<mapsto> [])\<rparr>)
      | Mode_a \<Rightarrow> Some (w\<lparr>files := (files w)(p \<mapsto> content_of w p)\<rparr>)
      | Mode_a_plus \<Rightarrow> Some (w\<lparr>files := (files w)(p \<mapsto> content_of w p)\<rparr>)
      | Mode_r \<Rightarrow> (if files w p = None then None else Some w)
      | Mode_r_plus \<Rightarrow> (if files w p = None then None else Some w))"

subsection \<open>\<^verbatim>\<open>std::basic_filebuf\<close>\<close>

text \<open>
  A file buffer is associated with at most one open file and holds the characters
  written to it that have not reached the file yet. The logger never seeks, so every
  character that leaves the buffer lands at the end of the file, in either writing mode.
  Writing to an open file is taken to succeed (no full disk).

  \<^item> \<open>filebuf_open\<close>: fails when a file is already open or when \<^verbatim>\<open>fopen\<close> fails, and
    then leaves the buffer as it was; the boolean is \<^verbatim>\<open>open(...) != nullptr\<close>.
  \<^item> \<open>filebuf_sync\<close>: what \<^verbatim>\<open>pubsync\<close> does; with no open file there is no put area and
    nothing happens.
  \<^item> \<open>filebuf_close\<close>: writes the pending characters out and closes the file; nothing
    happens when no file is open.
  \<^item> \<open>filebuf_sputn\<close>: appends to the put area of an open file. With no open file there
    is no put area: \<^verbatim>\<open>overflow\<close> fails and no character is accepted, so the call
    succeeds only for the empty string.
\<close>

record filebuf =
  fb_file :: "path option"
  fb_pending :: string

definition filebuf_is_open :: "filebuf \<Rightarrow> bool" where
  "filebuf_is_open fb = (fb_file fb \<noteq> None)"

fun filebuf_open :: "path \<Rightarrow> openmode \<Rightarrow> world \<times> filebuf \<Rightarrow> bool \<times> world \<times> filebuf" where
  "filebuf_open p m (w, fb) =
     (if filebuf_is_open fb then (False, w, fb)
      else case Option.bind (fopen_mode_of m) (\<lambda>cm. fopen p cm w) of
        None \<Rightarrow> (False, w, fb)
      | Some w' \<Rightarrow> (True, w', fb\<lparr>fb_file := Some p, fb_pending := []\<rparr>))"

fun filebuf_sync :: "world \<times> filebuf \<Rightarrow> world \<times> filebuf" where
  "filebuf_sync (w, fb) =
     (case fb_file fb of
        None \<Rightarrow> (w, fb)
      | Some p \<Rightarrow>
          (w\<lparr>files := (files w)(p \<mapsto> content_of w p @ fb_pending fb)\<rparr>,
           fb\<lparr>fb_pending := []\<rparr>))"

fun filebuf_close :: "world \<times> filebuf \<Rightarrow> world \<times> filebuf" where
  "filebuf_close (w, fb) =
     (let (w', fb') = filebuf_sync (w, fb) in (w', fb'\<lparr>fb_file := None\<rparr>))"

definition filebuf_sputn :: "string \<Rightarrow> filebuf \<Rightarrow> bool \<times> filebuf" where
  "filebuf_sputn s fb =
     (if filebuf_is_open fb then (True, fb\<lparr>fb_pending := fb_pending fb @ s\<rparr>)
      else (s = [], fb))"

subsection \<open>\<^verbatim>\<open>std::basic_ostream\<close>\<close>

text \<open>
  The stream part of a sink: the stream buffer it writes through (\<^verbatim>\<open>rdbuf()\<close>, which
  the source only ever sets to the buffer of \<^verbatim>\<open>std::clog\<close> or to the sink's own file
  buffer) and the two error flags of its state. The exception mask stays at its default,
  so setting a flag never throws.

  \<^item> \<open>set_rdbuf\<close> is \<^verbatim>\<open>basic_ios::rdbuf(sb)\<close>. By [basic.ios.members] it stores the
    buffer and calls \<^verbatim>\<open>clear()\<close>, which resets the state to \<^verbatim>\<open>goodbit\<close>.
  \<^item> \<open>os_flush\<close> is \<^verbatim>\<open>basic_ostream::flush()\<close>: an unformatted output function. It
    does nothing unless the stream is good, and then calls \<^verbatim>\<open>pubsync\<close> on the buffer.
  \<^item> \<open>os_insert\<close> is \<^verbatim>\<open>operator<<\<close> for a value whose text is the given string: it
    does nothing unless the stream is good, hands the characters to the buffer, and sets
    \<^verbatim>\<open>badbit\<close> when the buffer does not take them. (Implementations differ in which
    flags a failed or refused insertion sets; all agree on whether the stream is good
    afterwards, and the properties below are stated with \<open>good\<close>.)
  \<^item> \<open>os_endl\<close> is \<^verbatim>\<open>std::endl\<close>: \<^verbatim>\<open>put('\n')\<close>, then \<^verbatim>\<open>flush()\<close>.
\<close>

datatype streambuf_ref = Clog_rdbuf | Own_filebuf

record logstream =
  m_filebuf :: filebuf
  rdbuf :: streambuf_ref
  failbit :: bool
  badbit :: bool

definition good :: "logstream \<Rightarrow> bool" where
  "good s = (\<not> failbit s \<and> \<not> badbit s)"

definition setstate_failbit :: "logstream \<Rightarrow> logstream" where
  "setstate_failbit s = s\<lparr>failbit := True\<rparr>"

definition setstate_badbit :: "logstream \<Rightarrow> logstream" where
  "setstate_badbit s = s\<lparr>badbit := True\<rparr>"

definition clear_state :: "logstream \<Rightarrow> logstream" where
  "clear_state s = s\<lparr>failbit := False, badbit := False\<rparr>"

definition set_rdbuf :: "streambuf_ref \<Rightarrow> logstream \<Rightarrow> logstream" where
  "set_rdbuf r s = clear_state (s\<lparr>rdbuf := r\<rparr>)"

definition clog_sync :: "world \<Rightarrow> world" where
  "clog_sync w = w\<lparr>console := console w @ clog_pending w, clog_pending := []\<rparr>"

fun os_flush :: "world \<times> logstream \<Rightarrow> world \<times> logstream" where
  "os_flush (w, s) =
     (if \<not> good s then (w, s)
      else case rdbuf s of
        Clog_rdbuf \<Rightarrow> (clog_sync w, s)
      | Own_filebuf \<Rightarrow>
          (let (w', fb') = filebuf_sync (w, m_filebuf s) in (w', s\<lparr>m_filebuf := fb'\<rparr>)))"

fun os_insert :: "string \<Rightarrow> world \<times> logstream \<Rightarrow> world \<times> logstream" where
  "os_insert txt (w, s) =
     (if \<not> good s then (w, s)
      else case rdbuf s of
        Clog_rdbuf \<Rightarrow> (w\<lparr>clog_pending := clog_pending w @ txt\<rparr>, s)
      | Own_filebuf \<Rightarrow>
          (let (ok, fb') = filebuf_sputn txt (m_filebuf s)
           in (w, if ok then s\<lparr>m_filebuf := fb'\<rparr> else setstate_badbit s)))"

definition os_endl :: "world \<times> logstream \<Rightarrow> world \<times> logstream" where
  "os_endl st = os_flush (os_insert [CHR 0x0A] st)"

section \<open>The sink: \<^verbatim>\<open>basic_logstream\<close>\<close>

text \<open>
  \<open>logstream_init\<close> is the default constructor (\<^verbatim>\<open>os_type{std::clog.rdbuf()}\<close>, an empty
  file buffer); \<open>logstream_open\<close>, \<open>logstream_close\<close> and \<open>logstream_swap\<close> are the members
  \<^verbatim>\<open>open\<close>, \<^verbatim>\<open>close\<close> and \<^verbatim>\<open>swap\<close>, statement by statement. \<open>flags\<close> is the
  constant of \<^verbatim>\<open>open\<close>: \<^verbatim>\<open>std::ios::binary | std::ios::out | std::ios::app\<close>.

  \<^verbatim>\<open>basic_ostream::swap\<close> calls \<^verbatim>\<open>basic_ios::swap\<close>, which exchanges the states of the
  two streams except for the associated \<^verbatim>\<open>rdbuf\<close> objects ([basic.ios.members]); the
  file buffers are exchanged by \<^verbatim>\<open>m_filebuf.swap\<close>. The caller tests
  \<^verbatim>\<open>this != std::addressof(rhs)\<close>; the function below is the body of the branch.
\<close>

definition flags :: openmode where
  "flags = \<lparr>ios_app = True, ios_binary = True, ios_in = False, ios_out = True,
            ios_trunc = False\<rparr>"

definition logstream_init :: logstream where
  "logstream_init =
     \<lparr>m_filebuf = \<lparr>fb_file = None, fb_pending = []\<rparr>, rdbuf = Clog_rdbuf,
      failbit = False, badbit = False\<rparr>"

definition is_open :: "logstream \<Rightarrow> bool" where
  "is_open s = filebuf_is_open (m_filebuf s)"

fun logstream_close :: "world \<times> logstream \<Rightarrow> world \<times> logstream" where
  "logstream_close (w, s) =
     (let (w1, s1) = os_flush (w, s)
      in if is_open s1
         then (let (w2, fb2) = filebuf_close (w1, m_filebuf s1)
               in (w2, set_rdbuf Clog_rdbuf (s1\<lparr>m_filebuf := fb2\<rparr>)))
         else (w1, s1))"

fun logstream_open :: "path \<Rightarrow> world \<times> logstream \<Rightarrow> world \<times> logstream" where
  "logstream_open filepath (w, s) =
     (let (w1, s1) = (if is_open s then logstream_close (w, s) else (w, s));
          (ok, w2, fb2) = filebuf_open filepath flags (w1, m_filebuf s1);
          s2 = s1\<lparr>m_filebuf := fb2\<rparr>;
          s3 = (if \<not> ok then setstate_failbit s2 else s2);
          (w4, s4) = os_flush (w2, s3)
      in (w4, set_rdbuf Own_filebuf s4))"

definition logstream_swap :: "logstream \<Rightarrow> logstream \<Rightarrow> logstream \<times> logstream" where
  "logstream_swap a b =
     (a\<lparr>failbit := failbit b, badbit := badbit b, m_filebuf := m_filebuf b\<rparr>,
      b\<lparr>failbit := failbit a, badbit := badbit a, m_filebuf := m_filebuf a\<rparr>)"

section \<open>The logger: \<^verbatim>\<open>basic_logger\<close>\<close>

subsection \<open>Text of the prefix\<close>

text \<open>
  \<^verbatim>\<open>msg_prefix\<close> formats into a string stream of its own, so its manipulators do not
  reach the sink. \<^verbatim>\<open>std::setw(5)\<close> applies to the next insertion, the thread id: text
  shorter than five characters is padded on the left with the fill character, a space.
  The text of a \<^verbatim>\<open>std::thread::id\<close> is left to the implementation and is a parameter
  of the call.

  \<^verbatim>\<open>elapsed_time()\<close> is a whole number of milliseconds (the difference of two
  \<^verbatim>\<open>std::chrono::milliseconds\<close>) converted to seconds as a \<^verbatim>\<open>double\<close>, and is
  printed with \<^verbatim>\<open>std::fixed\<close> and \<^verbatim>\<open>std::setprecision(3)\<close>. The \<^verbatim>\<open>double\<close> nearest
  to \<open>k / 1000\<close> rounds back to \<open>k / 1000\<close> at three decimals for every \<open>k\<close> a clock can
  give, so the text is the decimal expansion of the number of milliseconds with the point
  three digits from the right; this is what \<open>fixed3\<close> computes, from the integer.
\<close>

definition digit_char :: "nat \<Rightarrow> char" where
  "digit_char d = ''0123456789'' ! d"

function show_nat :: "nat \<Rightarrow> string" where
  "show_nat n = (if n < 10 then [digit_char n] else show_nat (n div 10) @ [digit_char (n mod 10)])"
  by pat_completeness auto
termination
  by (relation "measure id") auto

declare show_nat.simps [simp del]

definition fixed3 :: "int \<Rightarrow> string" where
  "fixed3 ms =
     (let k = nat \<bar>ms\<bar>
      in (if ms < 0 then ''-'' else []) @ show_nat (k div 1000) @ ''.'' @
         [digit_char (k div 100 mod 10), digit_char (k div 10 mod 10), digit_char (k mod 10)])"

definition setw5 :: "string \<Rightarrow> string" where
  "setw5 txt = replicate (5 - length txt) CHR '' '' @ txt"

subsection \<open>State and members\<close>

text \<open>
  The mutex is \<open>None\<close> when free and holds its owner otherwise. A member function is run
  by a \<open>caller\<close>: the calling thread, the text its id prints as, and the reading of
  \<^verbatim>\<open>std::chrono::steady_clock\<close> in milliseconds at the call.

  A member that locks returns an option: \<open>None\<close> means that the call does not return,
  because \<^verbatim>\<open>std::unique_lock\<close>'s constructor blocks on a mutex that is held (by another
  thread, or by the caller itself: \<^verbatim>\<open>std::mutex\<close> is not recursive). Otherwise the
  result is the state after the call; the members return \<^verbatim>\<open>*this\<close>, which is the
  logger of that state. The lock is released by the destructor of the
  \<^verbatim>\<open>unique_lock\<close> at the end of its scope (\<open>unlock_stream\<close>).
\<close>

record logger =
  m_start_time :: int
  m_lstrm_mtx :: "thread_id option"
  m_lstrm :: logstream
  m_min_lvl_atm :: log_level

record caller =
  this_thread :: thread_id
  get_id_text :: string
  steady_now :: int

definition default_lvl :: "bool \<Rightarrow> log_level" where
  "default_lvl ndebug = (if ndebug then Error else Info)"

definition logger_init :: "int \<Rightarrow> log_level \<Rightarrow> logger" where
  "logger_init now lvl =
     \<lparr>m_start_time = now, m_lstrm_mtx = None, m_lstrm = logstream_init, m_min_lvl_atm = lvl\<rparr>"

definition logger_init_file :: "int \<Rightarrow> log_level \<Rightarrow> path \<Rightarrow> world \<Rightarrow> world \<times> logger" where
  "logger_init_file now lvl filepath w =
     (let (w', s) = logstream_open filepath (w, logstream_init)
      in (w', \<lparr>m_start_time = now, m_lstrm_mtx = None, m_lstrm = s, m_min_lvl_atm = lvl\<rparr>))"

definition lock_stream :: "thread_id \<Rightarrow> logger \<Rightarrow> logger option" where
  "lock_stream t lg =
     (case m_lstrm_mtx lg of
        None \<Rightarrow> Some (lg\<lparr>m_lstrm_mtx := Some t\<rparr>)
      | Some owner \<Rightarrow> None)"

definition unlock_stream :: "logger \<Rightarrow> logger" where
  "unlock_stream lg = lg\<lparr>m_lstrm_mtx := None\<rparr>"

definition min_log_level :: "log_level \<Rightarrow> logger \<Rightarrow> logger" where
  "min_log_level lvl lg = lg\<lparr>m_min_lvl_atm := lvl\<rparr>"

definition elapsed_time :: "caller \<Rightarrow> logger \<Rightarrow> int" where
  "elapsed_time c lg = steady_now c - m_start_time lg"

definition msg_prefix :: "caller \<Rightarrow> logger \<Rightarrow> string" where
  "msg_prefix c lg =
     ''['' @ setw5 (get_id_text c) @ '', '' @ fixed3 (elapsed_time c lg) @ ''] ''"

fun open_file :: "caller \<Rightarrow> path \<Rightarrow> world \<times> logger \<Rightarrow> (world \<times> logger) option" where
  "open_file c filepath (w, lg) =
     (case lock_stream (this_thread c) lg of
        None \<Rightarrow> None
      | Some l \<Rightarrow>
          (let (w', s') = logstream_open filepath (w, m_lstrm l)
           in Some (w', unlock_stream (l\<lparr>m_lstrm := s'\<rparr>))))"

fun close_file :: "caller \<Rightarrow> world \<times> logger \<Rightarrow> (world \<times> logger) option" where
  "close_file c (w, lg) =
     (case lock_stream (this_thread c) lg of
        None \<Rightarrow> None
      | Some l \<Rightarrow>
          (let (w', s') = logstream_close (w, m_lstrm l)
           in Some (w', unlock_stream (l\<lparr>m_lstrm := s'\<rparr>))))"

text \<open>
  The five logging members have the same body up to the level constant of the test and
  the tag. \<open>write_line\<close> is the branch taken when the test passes:
  \<^verbatim>\<open>auto l{lock_stream()}; m_lstrm << msg_prefix() << TAG; (m_lstrm << ... << msgs) << std::endl;\<close>
  The arguments are given by the text each of them prints as; the fold expression
  inserts them from left to right.
\<close>

fun write_line :: "caller \<Rightarrow> string \<Rightarrow> string list \<Rightarrow> world \<times> logger \<Rightarrow> (world \<times> logger) option" where
  "write_line c tag msgs (w, lg) =
     (case lock_stream (this_thread c) lg of
        None \<Rightarrow> None
      | Some l \<Rightarrow>
          (let st1 = os_insert tag (os_insert (msg_prefix c l) (w, m_lstrm l));
               st2 = foldl (\<lambda>st m. os_insert m st) st1 msgs;
               (w', s') = os_endl st2
           in Some (w', unlock_stream (l\<lparr>m_lstrm := s'\<rparr>))))"

definition fatal :: "caller \<Rightarrow> string list \<Rightarrow> world \<times> logger \<Rightarrow> (world \<times> logger) option" where
  "fatal c msgs st =
     (if level_ge Fatal (m_min_lvl_atm (snd st)) then write_line c ''FATAL: '' msgs st
      else Some st)"

definition error :: "caller \<Rightarrow> string list \<Rightarrow> world \<times> logger \<Rightarrow> (world \<times> logger) option" where
  "error c msgs st =
     (if level_ge Error (m_min_lvl_atm (snd st)) then write_line c ''ERROR: '' msgs st
      else Some st)"

definition warning :: "caller \<Rightarrow> string list \<Rightarrow> world \<times> logger \<Rightarrow> (world \<times> logger) option" where
  "warning c msgs st =
     (if level_ge Warn (m_min_lvl_atm (snd st)) then write_line c ''WARN:  '' msgs st
      else Some st)"

definition info :: "caller \<Rightarrow> string list \<Rightarrow> world \<times> logger \<Rightarrow> (world \<times> logger) option" where
  "info c msgs st =
     (if level_ge Info (m_min_lvl_atm (snd st)) then write_line c ''INFO:  '' msgs st
      else Some st)"

definition trace :: "caller \<Rightarrow> string list \<Rightarrow> world \<times> logger \<Rightarrow> (world \<times> logger) option" where
  "trace c msgs st =
     (if level_ge Trace (m_min_lvl_atm (snd st)) then write_line c ''TRACE: '' msgs st
      else Some st)"

text \<open>
  The body of \<^verbatim>\<open>basic_logger::swap\<close> for two distinct loggers, once both locks are
  held: the start times, the sinks and the thresholds are exchanged. \<open>logger_swap\<close> is
  the member itself, on a store of loggers indexed by their addresses: nothing happens
  when \<^verbatim>\<open>this == std::addressof(rhs)\<close>; otherwise the lock of \<^verbatim>\<open>*this\<close> is taken,
  then the lock of \<^verbatim>\<open>rhs\<close>, and both are released at the end of the scope.
\<close>

type_synonym addr = nat

type_synonym store = "addr \<Rightarrow> logger"

definition swap_fields :: "logger \<Rightarrow> logger \<Rightarrow> logger \<times> logger" where
  "swap_fields a b =
     (let (sa, sb) = logstream_swap (m_lstrm a) (m_lstrm b)
      in (a\<lparr>m_start_time := m_start_time b, m_lstrm := sa, m_min_lvl_atm := m_min_lvl_atm b\<rparr>,
          b\<lparr>m_start_time := m_start_time a, m_lstrm := sb, m_min_lvl_atm := m_min_lvl_atm a\<rparr>))"

definition logger_swap :: "caller \<Rightarrow> addr \<Rightarrow> addr \<Rightarrow> store \<Rightarrow> store option" where
  "logger_swap c this rhs h =
     (if this = rhs then Some h
      else case lock_stream (this_thread c) (h this) of
        None \<Rightarrow> None
      | Some l \<Rightarrow>
          (case lock_stream (this_thread c) (h rhs) of
             None \<Rightarrow> None
           | Some lr \<Rightarrow>
               (let (a, b) = swap_fields l lr
                in Some (h(this := unlock_stream a, rhs := unlock_stream b)))))"

section \<open>Observations used to state the properties\<close>

text \<open>
  The five logging members, with the severity and the tag that the specification gives
  to each; \<open>call\<close> runs the member of the source.
\<close>

datatype member = Call_fatal | Call_error | Call_warning | Call_info | Call_trace

fun call :: "member \<Rightarrow> caller \<Rightarrow> string list \<Rightarrow> world \<times> logger \<Rightarrow> (world \<times> logger) option" where
  "call Call_fatal = fatal"
| "call Call_error = error"
| "call Call_warning = warning"
| "call Call_info = info"
| "call Call_trace = trace"

fun severity :: "member \<Rightarrow> log_level" where
  "severity Call_fatal = Fatal"
| "severity Call_error = Error"
| "severity Call_warning = Warn"
| "severity Call_info = Info"
| "severity Call_trace = Trace"

fun level_tag :: "member \<Rightarrow> string" where
  "level_tag Call_fatal = ''FATAL: ''"
| "level_tag Call_error = ''ERROR: ''"
| "level_tag Call_warning = ''WARN:  ''"
| "level_tag Call_info = ''INFO:  ''"
| "level_tag Call_trace = ''TRACE: ''"

text \<open>
  A sink works when its stream is good and its stream buffer leads somewhere: to the
  console, or to a file buffer with an open file. \<open>sink_delivered\<close> is the text that has
  reached the destination of the sink (the console device or the file), \<open>sink_buffered\<close>
  the text still held in the stream buffer.
\<close>

definition working :: "logstream \<Rightarrow> bool" where
  "working s = (good s \<and> (rdbuf s = Clog_rdbuf \<or> is_open s))"

definition sink_delivered :: "world \<Rightarrow> logstream \<Rightarrow> string" where
  "sink_delivered w s =
     (case rdbuf s of
        Clog_rdbuf \<Rightarrow> console w
      | Own_filebuf \<Rightarrow> (case fb_file (m_filebuf s) of None \<Rightarrow> [] | Some p \<Rightarrow> content_of w p))"

definition sink_buffered :: "world \<Rightarrow> logstream \<Rightarrow> string" where
  "sink_buffered w s =
     (case rdbuf s of
        Clog_rdbuf \<Rightarrow> clog_pending w
      | Own_filebuf \<Rightarrow> fb_pending (m_filebuf s))"

text \<open>
  Reading decimal text, to say what number a piece of a line denotes: the value of a
  digit, and the value of a string of digits, most significant digit first. These do not
  use the functions that print.
\<close>

definition is_digit :: "char \<Rightarrow> bool" where
  "is_digit ch = (48 \<le> (of_char ch :: nat) \<and> (of_char ch :: nat) \<le> 57)"

definition digit_val :: "char \<Rightarrow> nat" where
  "digit_val ch = (of_char ch :: nat) - 48"

definition decimal_value :: "string \<Rightarrow> nat" where
  "decimal_value ds = foldl (\<lambda>acc ch. 10 * acc + digit_val ch) 0 ds"

text \<open>
  \<open>sink_text\<close> is all the text written to the destination, delivered or not yet.
  \<open>files_extended w w'\<close> says that from \<open>w\<close> to \<open>w'\<close> every file has kept the bytes
  it had, at the front. A sink is \<open>dangling\<close> when it writes through its file buffer and
  that buffer has no open file.
\<close>

definition sink_text :: "world \<Rightarrow> logstream \<Rightarrow> string" where
  "sink_text w s = sink_delivered w s @ sink_buffered w s"

definition files_extended :: "world \<Rightarrow> world \<Rightarrow> bool" where
  "files_extended w w' =
     (can_open w' = can_open w \<and>
      (\<forall>q c. files w q = Some c \<longrightarrow> (\<exists>added. files w' q = Some (c @ added))))"

definition dangling :: "logstream \<Rightarrow> bool" where
  "dangling s = (rdbuf s = Own_filebuf \<and> \<not> is_open s)"

text \<open>
  The states a single sink can reach: it is constructed on the console and then opened,
  closed and written to, in any order and in any world.
\<close>

datatype sink_op = Op_open path | Op_close | Op_insert string | Op_endl

fun sink_step :: "world \<times> logstream \<Rightarrow> sink_op \<Rightarrow> world \<times> logstream" where
  "sink_step st (Op_open p) = logstream_open p st"
| "sink_step st Op_close = logstream_close st"
| "sink_step st (Op_insert txt) = os_insert txt st"
| "sink_step st Op_endl = os_endl st"

definition sink_run :: "sink_op list \<Rightarrow> world \<Rightarrow> world \<times> logstream" where
  "sink_run ops w = foldl sink_step (w, logstream_init) ops"

section \<open>Example inputs\<close>

text \<open>
  A world with no files in which only \<^verbatim>\<open>out.log\<close> can be opened (any other path
  stands for a path whose directory does not exist), and a calling thread whose id prints
  as \<^verbatim>\<open>140234\<close>, two milliseconds after the clock's epoch.
\<close>

definition example_world :: world where
  "example_world =
     \<lparr>files = (\<lambda>p. None), can_open = (\<lambda>p. p = ''out.log''), console = [], clog_pending = []\<rparr>"

definition example_caller :: caller where
  "example_caller = \<lparr>this_thread = 1, get_id_text = ''140234'', steady_now = 2\<rparr>"

text \<open>
  A calling thread whose id prints as the two characters \<^verbatim>\<open>42\<close>, 1005 milliseconds
  after the clock's epoch.
\<close>

definition short_id_caller :: caller where
  "short_id_caller = \<lparr>this_thread = 42, get_id_text = ''42'', steady_now = 1005\<rparr>"

text \<open>
  The same world with a file \<^verbatim>\<open>out.log\<close> that already holds a line, and the state of a
  logger, constructed on the console with the threshold \<^verbatim>\<open>Trace\<close>, after
  \<^verbatim>\<open>open_file\<close> on a path that cannot be opened.
\<close>

definition example_world_old :: world where
  "example_world_old = example_world\<lparr>files := [''out.log'' \<mapsto> ''old line'' @ [CHR 0x0A]]\<rparr>"

definition failed_open_state :: "world \<times> logger" where
  "failed_open_state =
     the (open_file example_caller ''missing/out.log'' (example_world, logger_init 0 Trace))"

section \<open>Threads\<close>

text \<open>
  Where several threads run members at the same time, a member is cut at the points where
  it waits for a mutex, and a run of the program is a sequence of steps, each taken by
  one thread. A step that needs a mutex can be taken only while the mutex is free;
  \<open>None\<close> says that the thread cannot take a step now.

  \<open>swap_step\<close> cuts \<^verbatim>\<open>basic_logger::swap\<close>: the test of the addresses together with
  the locking of \<^verbatim>\<open>*this\<close>, then the locking of \<^verbatim>\<open>rhs\<close>, then the exchange and the
  release of both locks at the end of the scope. \<open>swap_run\<close> lets one thread take its
  steps one after the other.
\<close>

datatype swap_pc = Swap_entry | Swap_locked_this | Swap_locked_both | Swap_returned

fun swap_step :: "caller \<Rightarrow> addr \<Rightarrow> addr \<Rightarrow> swap_pc \<times> store \<Rightarrow> (swap_pc \<times> store) option" where
  "swap_step c this rhs (Swap_entry, h) =
     (if this = rhs then Some (Swap_returned, h)
      else case lock_stream (this_thread c) (h this) of
        None \<Rightarrow> None
      | Some l \<Rightarrow> Some (Swap_locked_this, h(this := l)))"
| "swap_step c this rhs (Swap_locked_this, h) =
     (case lock_stream (this_thread c) (h rhs) of
        None \<Rightarrow> None
      | Some lr \<Rightarrow> Some (Swap_locked_both, h(rhs := lr)))"
| "swap_step c this rhs (Swap_locked_both, h) =
     (let (a, b) = swap_fields (h this) (h rhs)
      in Some (Swap_returned, h(this := unlock_stream a, rhs := unlock_stream b)))"
| "swap_step c this rhs (Swap_returned, h) = None"

fun swap_run :: "nat \<Rightarrow> caller \<Rightarrow> addr \<Rightarrow> addr \<Rightarrow> swap_pc \<times> store \<Rightarrow> store option" where
  "swap_run 0 c this rhs st = None"
| "swap_run (Suc n) c this rhs st =
     (if fst st = Swap_returned then Some (snd st)
      else Option.bind (swap_step c this rhs st) (swap_run n c this rhs))"

text \<open>
  Two loggers at the addresses 0 and 1, both on the console with free mutexes, and two
  threads. \<open>store_one_lock\<close> is the store once thread 1 has locked logger 0, and
  \<open>store_two_locks\<close> once thread 2 has locked logger 1 as well.
\<close>

definition example_store :: store where
  "example_store = (\<lambda>a. logger_init 0 Trace)"

definition thread_one :: caller where
  "thread_one = \<lparr>this_thread = 1, get_id_text = ''1'', steady_now = 5\<rparr>"

definition thread_two :: caller where
  "thread_two = \<lparr>this_thread = 2, get_id_text = ''2'', steady_now = 5\<rparr>"

definition store_one_lock :: store where
  "store_one_lock = example_store(0 := (logger_init 0 Trace)\<lparr>m_lstrm_mtx := Some 1\<rparr>)"

definition store_two_locks :: store where
  "store_two_locks = store_one_lock(1 := (logger_init 0 Trace)\<lparr>m_lstrm_mtx := Some 2\<rparr>)"

text \<open>
  \<open>call_step\<close> cuts a logging member in the same way, and once more between the
  insertions into the stream, so that another thread may run between any two of them:
  the test of the level, the locking of the mutex (after which \<^verbatim>\<open>msg_prefix()\<close> is
  computed), one step for each insertion of \<^verbatim>\<open>m_lstrm << msg_prefix() << TAG\<close> and of
  the fold over the arguments, \<^verbatim>\<open>std::endl\<close>, and the release of the lock at the end of
  the scope. \<open>call_run\<close> lets one thread take the steps of a call one after the other.
\<close>

datatype call_pc = At_gate | At_lock | At_insert "string list" | At_unlock | Returned

fun call_step :: "member \<Rightarrow> caller \<Rightarrow> string list \<Rightarrow> call_pc \<times> world \<times> logger
    \<Rightarrow> (call_pc \<times> world \<times> logger) option" where
  "call_step m c msgs (At_gate, w, lg) =
     Some (if level_ge (severity m) (m_min_lvl_atm lg) then At_lock else Returned, w, lg)"
| "call_step m c msgs (At_lock, w, lg) =
     (case lock_stream (this_thread c) lg of
        None \<Rightarrow> None
      | Some l \<Rightarrow> Some (At_insert (msg_prefix c l # level_tag m # msgs), w, l))"
| "call_step m c msgs (At_insert (x # xs), w, lg) =
     (let (w', s') = os_insert x (w, m_lstrm lg) in Some (At_insert xs, w', lg\<lparr>m_lstrm := s'\<rparr>))"
| "call_step m c msgs (At_insert [], w, lg) =
     (let (w', s') = os_endl (w, m_lstrm lg) in Some (At_unlock, w', lg\<lparr>m_lstrm := s'\<rparr>))"
| "call_step m c msgs (At_unlock, w, lg) = Some (Returned, w, unlock_stream lg)"
| "call_step m c msgs (Returned, w, lg) = None"

fun call_run :: "nat \<Rightarrow> member \<Rightarrow> caller \<Rightarrow> string list \<Rightarrow> call_pc \<times> world \<times> logger
    \<Rightarrow> (world \<times> logger) option" where
  "call_run 0 m c msgs st = None"
| "call_run (Suc n) m c msgs st =
     (if fst st = Returned then Some (snd st)
      else Option.bind (call_step m c msgs st) (call_run n m c msgs))"

text \<open>
  A thread has a list of logging calls to make, each given by the member, the caller
  record and the arguments; its state is the position in the first of them. The threads
  of a program share one world and one logger. Thread \<open>i\<close> is the \<open>i\<close>-th of the list,
  and a schedule is the list of the threads that take the steps, in order; \<open>sys_run\<close> is
  \<open>None\<close> when the schedule asks a thread for a step that it cannot take.
\<close>

type_synonym job = "member \<times> caller \<times> string list"

type_synonym thread = "call_pc \<times> job list"

fun thread_step :: "thread \<Rightarrow> world \<times> logger \<Rightarrow> (thread \<times> world \<times> logger) option" where
  "thread_step (pc, []) (w, lg) = None"
| "thread_step (pc, (m, c, msgs) # js) (w, lg) =
     (case call_step m c msgs (pc, w, lg) of
        None \<Rightarrow> None
      | Some (pc', w', lg') \<Rightarrow>
          Some (if pc' = Returned then (At_gate, js) else (pc', (m, c, msgs) # js), w', lg'))"

fun sys_step :: "nat \<Rightarrow> world \<times> logger \<times> thread list \<Rightarrow> (world \<times> logger \<times> thread list) option" where
  "sys_step i (w, lg, ts) =
     (if i < length ts
      then case thread_step (ts ! i) (w, lg) of
             None \<Rightarrow> None
           | Some (t', w', lg') \<Rightarrow> Some (w', lg', ts[i := t'])
      else None)"

fun sys_run :: "nat list \<Rightarrow> world \<times> logger \<times> thread list \<Rightarrow> (world \<times> logger \<times> thread list) option" where
  "sys_run [] cfg = Some cfg"
| "sys_run (i # sch) cfg = Option.bind (sys_step i cfg) (sys_run sch)"

text \<open>
  The line of a call, and what a thread that is between the locking and the release
  still has to write of its line.
\<close>

definition line_of :: "logger \<Rightarrow> job \<Rightarrow> string" where
  "line_of lg j =
     (case j of (m, c, msgs) \<Rightarrow> msg_prefix c lg @ level_tag m @ concat msgs @ [CHR 0x0A])"

fun still_to_write :: "call_pc \<Rightarrow> string option" where
  "still_to_write (At_insert xs) = Some (concat xs @ [CHR 0x0A])"
| "still_to_write At_unlock = Some []"
| "still_to_write At_gate = None"
| "still_to_write At_lock = None"
| "still_to_write Returned = None"

definition outside :: "call_pc \<Rightarrow> bool" where
  "outside pc = (pc = At_gate \<or> pc = At_lock)"

definition passes :: "logger \<Rightarrow> job \<Rightarrow> bool" where
  "passes lg j = (case j of (m, c, msgs) \<Rightarrow> level_ge (severity m) (m_min_lvl_atm lg))"

definition emitted_lines :: "logger \<Rightarrow> job list \<Rightarrow> string multiset" where
  "emitted_lines lg js = mset (map (line_of lg) (filter (passes lg) js))"

definition all_returned :: "thread list \<Rightarrow> bool" where
  "all_returned ts = (concat (map snd ts) = [])"

text \<open>
  What holds in every state of a run that starts with the text \<open>start\<close> at the
  destination, the logger \<open>lg0\<close> and the calls \<open>jobs\<close>: the sink works; start time and
  threshold are those of \<open>lg0\<close>; the calls a thread has left are calls of \<open>jobs\<close> made in
  its name; a thread beyond the level test is in a call that passes it; the whole lines
  written so far and the lines of the calls still to return make up the lines of all
  calls that pass; and the text at the destination is \<open>start\<close>, then the whole lines, then
  the written part of the line of the thread that holds the mutex, while every other
  thread is before its lock.
\<close>

definition sys_inv :: "string \<Rightarrow> logger \<Rightarrow> job list \<Rightarrow> world \<times> logger \<times> thread list \<Rightarrow> bool" where
  "sys_inv start lg0 jobs cfg =
     (case cfg of (w, lg, ts) \<Rightarrow>
        working (m_lstrm lg) \<and> m_start_time lg = m_start_time lg0
        \<and> m_min_lvl_atm lg = m_min_lvl_atm lg0
        \<and> (\<forall>i < length ts. \<forall>j \<in> set (snd (ts ! i)). j \<in> set jobs \<and> this_thread (fst (snd j)) = i)
        \<and> (\<forall>i < length ts. fst (ts ! i) \<noteq> At_gate \<longrightarrow>
              (\<exists>j js. snd (ts ! i) = j # js \<and> passes lg0 j))
        \<and> (\<exists>lines.
              mset lines + emitted_lines lg0 (concat (map snd ts)) = emitted_lines lg0 jobs
              \<and> (case m_lstrm_mtx lg of
                    None \<Rightarrow>
                      (\<forall>i < length ts. outside (fst (ts ! i)))
                      \<and> sink_text w (m_lstrm lg) = start @ concat lines
                  | Some t \<Rightarrow>
                      t < length ts
                      \<and> (\<forall>i < length ts. i \<noteq> t \<longrightarrow> outside (fst (ts ! i)))
                      \<and> (\<exists>j js r. snd (ts ! t) = j # js
                            \<and> still_to_write (fst (ts ! t)) = Some r
                            \<and> (\<exists>written. sink_text w (m_lstrm lg) = start @ concat lines @ written
                                  \<and> written @ r = line_of lg0 j)))))"

text \<open>
  Two threads that make one call each, and a schedule in which the second thread passes
  the level test while the first is in the middle of its line.
\<close>

definition two_threads :: "job list list" where
  "two_threads =
     [ [(Call_info, \<lparr>this_thread = 0, get_id_text = ''140234'', steady_now = 2\<rparr>, [''a'', ''b''])],
      [(Call_error, \<lparr>this_thread = 1, get_id_text = ''140235'', steady_now = 3\<rparr>, [''c''])]]"

definition example_schedule :: "nat list" where
  "example_schedule = [0, 0, 0, 0, 1, 0, 0, 0, 0, 1, 1, 1, 1, 1, 1]"

definition example_final_world :: world where
  "example_final_world =
     example_world\<lparr>console := ''[140234, 0.002] INFO:  ab'' @ [CHR 0x0A]
                               @ ''[140235, 0.003] ERROR: c'' @ [CHR 0x0A]\<rparr>"

section \<open>Properties of the sink and the logger\<close>

subsection \<open>Insertions\<close>

text \<open>
  Consecutive insertions amount to one insertion of the concatenated text, in every state
  of the stream: a stream that is not good ignores both, the console and an open file
  take both, and a file buffer with no open file refuses the first non-empty text.
\<close>

declare write_line.simps [simp del]

lemma os_insert_append: "os_insert b (os_insert a st) = os_insert (a @ b) st"
  by (cases st)
     (auto simp: filebuf_sputn_def good_def setstate_badbit_def filebuf_is_open_def
        split: streambuf_ref.splits prod.splits)

lemma foldl_os_insert:
  "foldl (\<lambda>st m. os_insert m st) (os_insert a st) msgs = os_insert (a @ concat msgs) st"
  by (induction msgs arbitrary: a) (simp_all add: os_insert_append)

lemma msg_prefix_lock: "msg_prefix c (lg\<lparr>m_lstrm_mtx := x\<rparr>) = msg_prefix c lg"
  by (simp add: msg_prefix_def elapsed_time_def)

lemma write_line_free:
  assumes "m_lstrm_mtx lg = None"
  shows "write_line c tag msgs (w, lg) =
         Some (case os_flush (os_insert (msg_prefix c lg @ tag @ concat msgs @ [CHR 0x0A]) (w, m_lstrm lg))
               of (w', s') \<Rightarrow> (w', lg\<lparr>m_lstrm := s'\<rparr>))"
proof -
  let ?l = "lg\<lparr>m_lstrm_mtx := Some (this_thread c)\<rparr>"
  have lock: "lock_stream (this_thread c) lg = Some ?l"
    using assms by (simp add: lock_stream_def)
  have ins: "os_endl (foldl (\<lambda>st m. os_insert m st)
               (os_insert tag (os_insert (msg_prefix c ?l) (w, m_lstrm ?l))) msgs)
             = os_flush (os_insert (msg_prefix c lg @ tag @ concat msgs @ [CHR 0x0A]) (w, m_lstrm lg))"
    by (simp only: os_endl_def os_insert_append foldl_os_insert msg_prefix_lock) simp
  have unl: "unlock_stream (?l\<lparr>m_lstrm := s'\<rparr>) = lg\<lparr>m_lstrm := s'\<rparr>" for s'
    using assms by (simp add: unlock_stream_def)
  show ?thesis
    by (simp only: write_line.simps lock option.case Let_def ins unl)
       (simp split: prod.splits)
qed

lemma write_line_held:
  "m_lstrm_mtx lg \<noteq> None \<Longrightarrow> write_line c tag msgs (w, lg) = None"
  by (auto simp: write_line.simps lock_stream_def)

lemma flush_insert_working:
  assumes "working s" and "os_flush (os_insert txt (w, s)) = (w', s')"
  shows "sink_delivered w' s' = sink_delivered w s @ sink_buffered w s @ txt
         \<and> sink_buffered w' s' = [] \<and> working s' \<and> rdbuf s' = rdbuf s
         \<and> fb_file (m_filebuf s') = fb_file (m_filebuf s)"
  using assms
  by (cases "rdbuf s")
     (auto simp: working_def good_def is_open_def filebuf_is_open_def filebuf_sputn_def
        sink_delivered_def sink_buffered_def clog_sync_def content_of_def
        split: prod.splits option.splits if_splits)

lemma call_suppressed:
  "\<not> level_ge (severity m) (m_min_lvl_atm lg) \<Longrightarrow> call m c msgs (w, lg) = Some (w, lg)"
  by (cases m) (simp_all add: fatal_def error_def warning_def info_def trace_def)

lemma call_passing:
  "level_ge (severity m) (m_min_lvl_atm lg) \<Longrightarrow>
   call m c msgs (w, lg) = write_line c (level_tag m) msgs (w, lg)"
  by (cases m) (simp_all add: fatal_def error_def warning_def info_def trace_def)

lemma show_nat_0: "show_nat 0 = ''0''"
  by (simp add: show_nat.simps [of 0] digit_char_def)

lemma setw5_wide: "5 \<le> length t \<Longrightarrow> setw5 t = t"
  by (simp add: setw5_def)

subsection \<open>Suppressed calls\<close>

text \<open>
  C10. A logging call whose severity is below the threshold returns with the world and
  the logger exactly as they were: nothing is written, the stream state and the buffers
  are untouched, and the mutex is not touched either. The logger may be in any state; in
  particular the call returns when the mutex is held by another thread, where a call that
  passes the test does not return (\<open>write_line_held\<close>). The returned logger is the
  logger the call was made on, so a suppressed call chains like an emitted one.
\<close>

theorem suppressed_call_is_identity:
  "\<not> level_ge (severity m) (m_min_lvl_atm lg) \<Longrightarrow> call m c msgs (w, lg) = Some (w, lg)"
  by (rule call_suppressed)

theorem suppressed_call_is_identity_witness:
  "\<not> level_ge (severity Call_error) (m_min_lvl_atm ((logger_init 0 Fatal)\<lparr>m_lstrm_mtx := Some 7\<rparr>))
   \<and> call Call_error example_caller [''y''] (example_world, (logger_init 0 Fatal)\<lparr>m_lstrm_mtx := Some 7\<rparr>)
       = Some (example_world, (logger_init 0 Fatal)\<lparr>m_lstrm_mtx := Some 7\<rparr>)
   \<and> call Call_fatal example_caller [''y''] (example_world, (logger_init 0 Fatal)\<lparr>m_lstrm_mtx := Some 7\<rparr>)
       = None"
  using suppressed_call_is_identity
    [where m = Call_error and lg = "(logger_init 0 Fatal)\<lparr>m_lstrm_mtx := Some 7\<rparr>"
       and c = example_caller and msgs = "[''y'']" and w = example_world]
  by (simp add: level_ge_def logger_init_def fatal_def write_line.simps lock_stream_def)

subsection \<open>The shape of a line\<close>

lemma digit_char_cases:
  assumes "d < 10"
  shows "is_digit (digit_char d) \<and> digit_val (digit_char d) = d
         \<and> (digit_char d = CHR ''0'') = (d = 0)"
proof -
  from assms have "d = 0 \<or> d = 1 \<or> d = 2 \<or> d = 3 \<or> d = 4 \<or> d = 5 \<or> d = 6 \<or> d = 7 \<or> d = 8 \<or> d = 9"
    by arith
  then show ?thesis
    by (elim disjE) (simp_all add: digit_char_def is_digit_def digit_val_def)
qed

lemma decimal_value_snoc: "decimal_value (ds @ [ch]) = 10 * decimal_value ds + digit_val ch"
  by (simp add: decimal_value_def)

lemma show_nat_reads_back:
  "show_nat n \<noteq> [] \<and> list_all is_digit (show_nat n) \<and> decimal_value (show_nat n) = n
   \<and> (0 < n \<longrightarrow> hd (show_nat n) \<noteq> CHR ''0'')"
proof (induction n rule: show_nat.induct)
  case (1 n)
  show ?case
  proof (cases "n < 10")
    case True
    with digit_char_cases [OF True] show ?thesis
      by (simp add: show_nat.simps [of n] decimal_value_def)
  next
    case False
    then have pos: "0 < n div 10" by simp
    have m: "n mod 10 < 10" by simp
    from "1.IH" False pos digit_char_cases [OF m] show ?thesis
      by (simp add: show_nat.simps [of n] decimal_value_snoc)
  qed
qed

lemma frac_value:
  "100 * ((k::nat) div 100 mod 10) + 10 * (k div 10 mod 10) + k mod 10 = k mod 1000"
  using mod_mult2_eq [of k 100 10] mod_mult2_eq [of k 10 10] by simp

lemma replicate_3: "replicate 3 x = [x, x, x]"
  by (simp add: numeral_3_eq_3)

lemma show_nat_1: "show_nat (Suc 0) = ''1''"
  by (simp add: show_nat.simps [of "Suc 0"] digit_char_def)

lemma fixed3_shape:
  "\<exists>ip frac. fixed3 ms = (if ms < 0 then ''-'' else []) @ ip @ ''.'' @ frac
     \<and> length frac = 3 \<and> ip \<noteq> [] \<and> list_all is_digit (ip @ frac)
     \<and> (ip = ''0'' \<or> hd ip \<noteq> CHR ''0'')
     \<and> int (decimal_value ip * 1000 + decimal_value frac) = \<bar>ms\<bar>"
proof -
  define k where "k = nat \<bar>ms\<bar>"
  let ?ip = "show_nat (k div 1000)"
  let ?frac = "[digit_char (k div 100 mod 10), digit_char (k div 10 mod 10), digit_char (k mod 10)]"
  note ip = show_nat_reads_back [of "k div 1000"]
  have d: "digit_val (digit_char (k div 100 mod 10)) = k div 100 mod 10"
    "digit_val (digit_char (k div 10 mod 10)) = k div 10 mod 10"
    "digit_val (digit_char (k mod 10)) = k mod 10"
    "is_digit (digit_char (k div 100 mod 10))" "is_digit (digit_char (k div 10 mod 10))"
    "is_digit (digit_char (k mod 10))"
    by (simp_all add: digit_char_cases)
  have fv: "decimal_value ?frac = k mod 1000"
  proof -
    have "decimal_value ?frac = 100 * (k div 100 mod 10) + 10 * (k div 10 mod 10) + k mod 10"
      by (simp add: decimal_value_def d)
    also have "\<dots> = k mod 1000" by (rule frac_value)
    finally show ?thesis .
  qed
  have lead: "?ip = ''0'' \<or> hd ?ip \<noteq> CHR ''0''"
  proof (cases "k div 1000 = 0")
    case True
    then show ?thesis by (simp add: show_nat_0)
  next
    case False
    with ip show ?thesis by simp
  qed
  have val: "int (decimal_value ?ip * 1000 + decimal_value ?frac) = \<bar>ms\<bar>"
    using ip fv by (simp add: k_def)
  have "fixed3 ms = (if ms < 0 then ''-'' else []) @ ?ip @ ''.'' @ ?frac"
    by (simp add: fixed3_def k_def Let_def)
  with ip d lead val show ?thesis
    by (intro exI [where x = ?ip] exI [where x = ?frac]) simp
qed

text \<open>
  C5, as the claim states it, fails for a thread id that prints in fewer than five
  characters: the id \<^verbatim>\<open>42\<close> is written as \<^verbatim>\<open>[   42, \<close>, with three spaces before it,
  and not as \<^verbatim>\<open>[42, \<close>.
\<close>

theorem short_id_is_padded:
  "sink_delivered
     (fst (the (call Call_info short_id_caller [''x''] (example_world, logger_init 0 Trace))))
     (m_lstrm (snd (the (call Call_info short_id_caller [''x''] (example_world, logger_init 0 Trace)))))
   = ''[   42, 1.005] INFO:  x'' @ [CHR 0x0A]
   \<and> sink_delivered
     (fst (the (call Call_info short_id_caller [''x''] (example_world, logger_init 0 Trace))))
     (m_lstrm (snd (the (call Call_info short_id_caller [''x''] (example_world, logger_init 0 Trace)))))
   \<noteq> ''[42, 1.005] INFO:  x'' @ [CHR 0x0A]"
  by (simp add: logger_init_def logstream_init_def good_def level_ge_def info_def
      write_line.simps lock_stream_def unlock_stream_def os_endl_def clog_sync_def
      sink_delivered_def example_world_def short_id_caller_def
      msg_prefix_def elapsed_time_def setw5_def fixed3_def show_nat_1 replicate_3 digit_char_def)

text \<open>
  C5, amended. On a working sink with a free mutex, a call that passes the test returns,
  and the destination has received what the stream buffer still held followed by exactly
  one line: an opening bracket; the thread id, preceded by as many spaces as it has
  fewer than five characters (\<^verbatim>\<open>std::setw(5)\<close>); a comma and a space; the elapsed time
  in seconds: a minus sign if it is negative, then the whole seconds in decimal digits
  without leading zeros, a point, and exactly three digits, which together read as the
  number of milliseconds elapsed; a closing bracket and a space; the tag of the level
  (\<^verbatim>\<open>FATAL: \<close>, \<^verbatim>\<open>ERROR: \<close>, \<^verbatim>\<open>WARN:  \<close>, \<^verbatim>\<open>INFO:  \<close> or \<^verbatim>\<open>TRACE: \<close>); the
  arguments in order with nothing between them; and a newline. The line is flushed:
  nothing is left in the stream buffer.
\<close>

theorem line_shape:
  assumes "working (m_lstrm lg)" and "m_lstrm_mtx lg = None"
    and "level_ge (severity m) (m_min_lvl_atm lg)"
  shows "\<exists>w' lg' ip frac. call m c msgs (w, lg) = Some (w', lg')
           \<and> sink_delivered w' (m_lstrm lg') =
               sink_delivered w (m_lstrm lg) @ sink_buffered w (m_lstrm lg) @
               ''['' @ replicate (5 - length (get_id_text c)) CHR '' '' @ get_id_text c @ '', '' @
               (if steady_now c - m_start_time lg < 0 then ''-'' else []) @ ip @ ''.'' @ frac @
               ''] '' @ level_tag m @ concat msgs @ [CHR 0x0A]
           \<and> sink_buffered w' (m_lstrm lg') = []
           \<and> length frac = 3 \<and> ip \<noteq> [] \<and> list_all is_digit (ip @ frac)
           \<and> (ip = ''0'' \<or> hd ip \<noteq> CHR ''0'')
           \<and> int (decimal_value ip * 1000 + decimal_value frac) = \<bar>steady_now c - m_start_time lg\<bar>"
proof -
  let ?line = "msg_prefix c lg @ level_tag m @ concat msgs @ [CHR 0x0A]"
  let ?ms = "steady_now c - m_start_time lg"
  obtain w' s' where fl: "os_flush (os_insert ?line (w, m_lstrm lg)) = (w', s')"
    by (cases "os_flush (os_insert ?line (w, m_lstrm lg))")
  have c: "call m c msgs (w, lg) = Some (w', lg\<lparr>m_lstrm := s'\<rparr>)"
    by (simp only: call_passing [OF assms(3)] write_line_free [OF assms(2)] fl) simp
  from fixed3_shape [of ?ms] obtain ip frac where
    f: "fixed3 ?ms = (if ?ms < 0 then ''-'' else []) @ ip @ ''.'' @ frac"
    and r: "length frac = 3" "ip \<noteq> []" "list_all is_digit (ip @ frac)"
      "ip = ''0'' \<or> hd ip \<noteq> CHR ''0''"
      "int (decimal_value ip * 1000 + decimal_value frac) = \<bar>?ms\<bar>"
    by blast
  have "sink_delivered w' s' =
          sink_delivered w (m_lstrm lg) @ sink_buffered w (m_lstrm lg) @
          ''['' @ replicate (5 - length (get_id_text c)) CHR '' '' @ get_id_text c @ '', '' @
          (if ?ms < 0 then ''-'' else []) @ ip @ ''.'' @ frac @
          ''] '' @ level_tag m @ concat msgs @ [CHR 0x0A]"
    and "sink_buffered w' s' = []"
    using flush_insert_working [OF assms(1) fl]
    by (simp_all add: msg_prefix_def elapsed_time_def setw5_def f)
  with c r show ?thesis
    by (intro exI [where x = w'] exI [where x = "lg\<lparr>m_lstrm := s'\<rparr>"]
        exI [where x = ip] exI [where x = frac]) simp
qed

theorem line_shape_witness:
  "working (m_lstrm (logger_init 0 Trace)) \<and> m_lstrm_mtx (logger_init 0 Trace) = None
   \<and> level_ge (severity Call_warning) (m_min_lvl_atm (logger_init 0 Trace))
   \<and> (\<exists>w' lg'. call Call_warning short_id_caller [''disk'', '' '', ''low''] (example_world, logger_init 0 Trace)
                  = Some (w', lg')
         \<and> sink_delivered w' (m_lstrm lg') = ''[   42, 1.005] WARN:  disk low'' @ [CHR 0x0A]
         \<and> sink_buffered w' (m_lstrm lg') = [])
   \<and> decimal_value ''1'' * 1000 + decimal_value ''005'' = 1005"
  using line_shape [where lg = "logger_init 0 Trace" and m = Call_warning and c = short_id_caller
      and msgs = "[''disk'', '' '', ''low'']" and w = example_world]
  by (simp add: logger_init_def logstream_init_def working_def good_def level_ge_def
      warning_def write_line.simps lock_stream_def unlock_stream_def os_endl_def clog_sync_def
      sink_delivered_def sink_buffered_def example_world_def short_id_caller_def
      msg_prefix_def elapsed_time_def setw5_def fixed3_def show_nat_1 replicate_3 digit_char_def
      decimal_value_def digit_val_def)

subsection \<open>No sink operation truncates a file\<close>

lemma files_extended_refl: "files_extended w w"
  by (simp add: files_extended_def)

lemma files_extended_trans: "files_extended a b \<Longrightarrow> files_extended b c \<Longrightarrow> files_extended a c"
  unfolding files_extended_def by (metis append.assoc)

lemma filebuf_sync_extends: "filebuf_sync (w, fb) = (w', fb') \<Longrightarrow> files_extended w w'"
  by (auto simp: files_extended_def content_of_def split: option.splits)

lemma filebuf_close_extends: "filebuf_close (w, fb) = (w', fb') \<Longrightarrow> files_extended w w'"
  by (auto simp: files_extended_def content_of_def split: option.splits)

lemma fopen_mode_flags: "fopen_mode_of flags = Some Mode_a"
  by (simp add: fopen_mode_of_def flags_def)

lemma filebuf_open_extends: "filebuf_open p flags (w, fb) = (ok, w', fb') \<Longrightarrow> files_extended w w'"
  by (auto simp: files_extended_def fopen_mode_flags fopen_def content_of_def
      split: option.splits if_splits)

lemma os_flush_extends: "os_flush (w, s) = (w', s') \<Longrightarrow> files_extended w w'"
  by (auto simp: files_extended_def clog_sync_def content_of_def
      split: option.splits if_splits streambuf_ref.splits)

lemma os_insert_extends: "os_insert txt (w, s) = (w', s') \<Longrightarrow> files_extended w w'"
  by (auto simp: files_extended_def split: option.splits if_splits streambuf_ref.splits prod.splits)

lemma logstream_close_extends:
  assumes "logstream_close (w, s) = (w', s')" shows "files_extended w w'"
proof -
  obtain w1 s1 where f: "os_flush (w, s) = (w1, s1)" by (cases "os_flush (w, s)")
  obtain w2 fb2 where c: "filebuf_close (w1, m_filebuf s1) = (w2, fb2)"
    by (cases "filebuf_close (w1, m_filebuf s1)")
  have "w' = (if is_open s1 then w2 else w1)"
    using assms f c by (simp del: os_flush.simps filebuf_close.simps split: if_splits)
  with os_flush_extends [OF f] filebuf_close_extends [OF c] show ?thesis
    by (auto intro: files_extended_trans)
qed

lemma logstream_open_extends:
  assumes "logstream_open p (w, s) = (w', s')" shows "files_extended w w'"
proof -
  obtain w1 s1 where c: "(if is_open s then logstream_close (w, s) else (w, s)) = (w1, s1)"
    by (cases "if is_open s then logstream_close (w, s) else (w, s)")
  obtain ok w2 fb2 where f: "filebuf_open p flags (w1, m_filebuf s1) = (ok, w2, fb2)"
    by (cases "filebuf_open p flags (w1, m_filebuf s1)")
  let ?s3 = "if \<not> ok then setstate_failbit (s1\<lparr>m_filebuf := fb2\<rparr>) else s1\<lparr>m_filebuf := fb2\<rparr>"
  obtain w4 s4 where g: "os_flush (w2, ?s3) = (w4, s4)" by (cases "os_flush (w2, ?s3)")
  have w': "w' = w4"
    using assms c f g
    by (simp del: os_flush.simps filebuf_open.simps logstream_close.simps add: Let_def)
  have "files_extended w w1"
    using c logstream_close_extends by (auto simp: files_extended_refl split: if_splits)
  with filebuf_open_extends [OF f] os_flush_extends [OF g] w' show ?thesis
    by (blast intro: files_extended_trans)
qed



subsection \<open>The level test\<close>

lemma passing_call_working:
  assumes "working (m_lstrm lg)" and "m_lstrm_mtx lg = None"
    and "level_ge (severity m) (m_min_lvl_atm lg)"
  shows "\<exists>w' s'. call m c msgs (w, lg) = Some (w', lg\<lparr>m_lstrm := s'\<rparr>)
           \<and> sink_delivered w' s' =
               sink_delivered w (m_lstrm lg) @ sink_buffered w (m_lstrm lg) @
               msg_prefix c lg @ level_tag m @ concat msgs @ [CHR 0x0A]
           \<and> sink_buffered w' s' = [] \<and> working s' \<and> rdbuf s' = rdbuf (m_lstrm lg)
           \<and> fb_file (m_filebuf s') = fb_file (m_filebuf (m_lstrm lg))"
proof -
  let ?line = "msg_prefix c lg @ level_tag m @ concat msgs @ [CHR 0x0A]"
  obtain w' s' where fl: "os_flush (os_insert ?line (w, m_lstrm lg)) = (w', s')"
    by (cases "os_flush (os_insert ?line (w, m_lstrm lg))")
  have "call m c msgs (w, lg) = Some (w', lg\<lparr>m_lstrm := s'\<rparr>)"
    by (simp only: call_passing [OF assms(3)] write_line_free [OF assms(2)] fl) simp
  with flush_insert_working [OF assms(1) fl] show ?thesis
    by blast
qed


text \<open>
  C1. Take any of the five logging members, of severity \<open>L\<close>, and any threshold \<open>T\<close>,
  on a logger whose sink works and whose mutex is free. The call returns, and the text at
  the destination of the sink (delivered or buffered) grows by the line of the call when
  \<open>L \<ge> T\<close> in the order \<^verbatim>\<open>Trace < Info < Warn < Error < Fatal < None\<close>, and stays as
  it was otherwise; the line is not empty, so the text changes if and only if \<open>L \<ge> T\<close>.
  With the threshold \<^verbatim>\<open>None\<close> each of the five calls leaves everything unchanged.
\<close>

theorem level_gate:
  assumes "working (m_lstrm lg)" and "m_lstrm_mtx lg = None"
  shows "\<exists>w' lg'. call m c msgs (w, lg) = Some (w', lg')
           \<and> sink_text w' (m_lstrm lg') =
               sink_text w (m_lstrm lg) @
               (if level_value (m_min_lvl_atm lg) \<le> level_value (severity m)
                then msg_prefix c lg @ level_tag m @ concat msgs @ [CHR 0x0A] else [])
           \<and> (sink_text w' (m_lstrm lg') \<noteq> sink_text w (m_lstrm lg))
               = (level_value (m_min_lvl_atm lg) \<le> level_value (severity m))
           \<and> (m_min_lvl_atm lg = None_level \<longrightarrow> (w', lg') = (w, lg))"
proof (cases "level_ge (severity m) (m_min_lvl_atm lg)")
  case True
  from passing_call_working [OF assms True, of c msgs w] obtain w' s' where
    "call m c msgs (w, lg) = Some (w', lg\<lparr>m_lstrm := s'\<rparr>)"
    "sink_delivered w' s' = sink_delivered w (m_lstrm lg) @ sink_buffered w (m_lstrm lg) @
       msg_prefix c lg @ level_tag m @ concat msgs @ [CHR 0x0A]"
    "sink_buffered w' s' = []"
    by blast
  moreover have "m_min_lvl_atm lg \<noteq> None_level"
    using True by (cases m) (auto simp: level_ge_def)
  ultimately show ?thesis
    using True by (simp add: sink_text_def level_ge_def)
next
  case False
  then have "call m c msgs (w, lg) = Some (w, lg)"
    by (rule call_suppressed)
  with False show ?thesis
    by (simp add: level_ge_def)
qed


theorem level_gate_witness:
  "working (m_lstrm (logger_init 0 Warn)) \<and> m_lstrm_mtx (logger_init 0 Warn) = None
   \<and> (\<exists>w' lg'. call Call_info example_caller [''x''] (example_world, logger_init 0 Warn) = Some (w', lg')
          \<and> sink_text w' (m_lstrm lg') = [])
   \<and> (\<exists>w' lg'. call Call_error example_caller [''y''] (example_world, logger_init 0 Warn) = Some (w', lg')
          \<and> sink_text w' (m_lstrm lg') = ''[140234, 0.002] ERROR: y'' @ [CHR 0x0A])"
  using level_gate [where lg = "logger_init 0 Warn" and m = Call_info and c = example_caller
      and msgs = "[''x'']" and w = example_world]
    level_gate [where lg = "logger_init 0 Warn" and m = Call_error and c = example_caller
      and msgs = "[''y'']" and w = example_world]
  by (auto simp add: logger_init_def logstream_init_def working_def good_def
      sink_text_def sink_delivered_def sink_buffered_def example_world_def example_caller_def
      msg_prefix_def elapsed_time_def setw5_def fixed3_def show_nat_0 digit_char_def)


subsection \<open>Opening a file\<close>

lemma flush_insert_file:
  assumes "good s" and "rdbuf s = Own_filebuf" and "fb_file (m_filebuf s) = Some p"
  shows "os_flush (os_insert txt (w, s)) =
         (w\<lparr>files := (files w)(p \<mapsto> content_of w p @ fb_pending (m_filebuf s) @ txt)\<rparr>,
          s\<lparr>m_filebuf := (m_filebuf s)\<lparr>fb_pending := []\<rparr>\<rparr>)"
  using assms by (simp add: good_def filebuf_sputn_def filebuf_is_open_def)

lemma logstream_open_success:
  assumes "can_open w p" and "logstream_open p (w, s) = (w', s')"
  shows "good s' \<and> rdbuf s' = Own_filebuf \<and> fb_file (m_filebuf s') = Some p
         \<and> fb_pending (m_filebuf s') = [] \<and> files w' p \<noteq> None"
proof -
  obtain w1 s1 where c: "(if is_open s then logstream_close (w, s) else (w, s)) = (w1, s1)"
    by (cases "if is_open s then logstream_close (w, s) else (w, s)")
  have closed: "\<not> is_open s1"
    using c
    by (auto simp: is_open_def filebuf_is_open_def set_rdbuf_def clear_state_def Let_def
        split: if_splits prod.splits streambuf_ref.splits option.splits)
  have "files_extended w w1"
    using c logstream_close_extends by (auto simp: files_extended_refl split: if_splits)
  then have can: "can_open w1 p"
    using assms(1) by (simp add: files_extended_def)
  have f: "filebuf_open p flags (w1, m_filebuf s1) =
           (True, w1\<lparr>files := (files w1)(p \<mapsto> content_of w1 p)\<rparr>,
            (m_filebuf s1)\<lparr>fb_file := Some p, fb_pending := []\<rparr>)"
    using closed can by (simp add: is_open_def fopen_mode_flags fopen_def)
  show ?thesis
    using assms(2) c f
    by (auto simp del: filebuf_open.simps logstream_close.simps
        simp add: Let_def set_rdbuf_def clear_state_def good_def content_of_def clog_sync_def
        split: if_splits streambuf_ref.splits prod.splits)
qed



text \<open>
  C8. \<^verbatim>\<open>open\<close> opens with the mode \<^verbatim>\<open>binary | out | app\<close>, which is the append mode of
  \<^verbatim>\<open>fopen\<close>. Whatever the state of the sink and whatever the path, every file that
  existed before the call still starts with the bytes it had (the call only ever adds
  the text that was pending for a file the sink had open). When the path can be opened,
  the target file afterwards consists of its former content, followed by such text if
  any, and the line of a following logging call that passes the level test is appended
  to it.
\<close>

theorem open_appends:
  assumes "logstream_open p (w, s) = (w', s')"
  shows "fopen_mode_of flags = Some Mode_a
         \<and> (\<forall>q c. files w q = Some c \<longrightarrow> (\<exists>added. files w' q = Some (c @ added)))
         \<and> (can_open w p \<longrightarrow> (\<exists>added. files w' p = Some (content_of w p @ added)))
         \<and> (can_open w p \<and> m_lstrm lg = s' \<and> m_lstrm_mtx lg = None
              \<and> level_ge (severity m) (m_min_lvl_atm lg) \<longrightarrow>
              (\<exists>w'' lg''. call m c msgs (w', lg) = Some (w'', lg'')
                 \<and> files w'' p = Some (content_of w' p @ msg_prefix c lg @ level_tag m
                                         @ concat msgs @ [CHR 0x0A])))"
proof (intro conjI impI allI)
  show "fopen_mode_of flags = Some Mode_a" by (rule fopen_mode_flags)
next
  fix q c assume "files w q = Some c"
  with logstream_open_extends [OF assms] show "\<exists>added. files w' q = Some (c @ added)"
    by (simp add: files_extended_def)
next
  assume can: "can_open w p"
  note ok = logstream_open_success [OF can assms]
  then obtain c' where c': "files w' p = Some c'" by auto
  show "\<exists>added. files w' p = Some (content_of w p @ added)"
  proof (cases "files w p")
    case None
    then show ?thesis using c' by (simp add: content_of_def)
  next
    case (Some c)
    with logstream_open_extends [OF assms] show ?thesis
      by (simp add: files_extended_def content_of_def)
  qed
next
  assume h: "can_open w p \<and> m_lstrm lg = s' \<and> m_lstrm_mtx lg = None
             \<and> level_ge (severity m) (m_min_lvl_atm lg)"
  then have can: "can_open w p" by simp
  note ok = logstream_open_success [OF can assms]
  let ?line = "msg_prefix c lg @ level_tag m @ concat msgs @ [CHR 0x0A]"
  have "call m c msgs (w', lg) =
        Some (case os_flush (os_insert ?line (w', m_lstrm lg)) of (w'', s'') \<Rightarrow> (w'', lg\<lparr>m_lstrm := s''\<rparr>))"
    using h by (simp only: call_passing write_line_free)
  also have "os_flush (os_insert ?line (w', m_lstrm lg)) =
      (w'\<lparr>files := (files w')(p \<mapsto> content_of w' p @ fb_pending (m_filebuf s') @ ?line)\<rparr>,
       s'\<lparr>m_filebuf := (m_filebuf s')\<lparr>fb_pending := []\<rparr>\<rparr>)"
    using h ok by (simp only: flush_insert_file [where p = p])
  finally show "\<exists>w'' lg''. call m c msgs (w', lg) = Some (w'', lg'')
       \<and> files w'' p = Some (content_of w' p @ ?line)"
    using ok by simp
qed

lemma can_open_example_old: "can_open example_world_old ''out.log''"
  by (simp add: example_world_old_def example_world_def)

theorem open_appends_witness:
  "logstream_open ''out.log'' (example_world_old, logstream_init) =
     (fst (logstream_open ''out.log'' (example_world_old, logstream_init)),
      snd (logstream_open ''out.log'' (example_world_old, logstream_init)))
   \<and> files example_world_old ''out.log'' = Some (''old line'' @ [CHR 0x0A])
   \<and> (\<exists>added. files (fst (logstream_open ''out.log'' (example_world_old, logstream_init))) ''out.log''
                 = Some (''old line'' @ [CHR 0x0A] @ added))
   \<and> (\<exists>w'' lg''.
         call Call_warning example_caller [''disk'', '' '', ''low'']
           (fst (logstream_open ''out.log'' (example_world_old, logstream_init)),
            (logger_init 0 Trace)\<lparr>m_lstrm := snd (logstream_open ''out.log'' (example_world_old, logstream_init))\<rparr>)
           = Some (w'', lg'')
         \<and> files w'' ''out.log'' =
             Some (content_of (fst (logstream_open ''out.log'' (example_world_old, logstream_init))) ''out.log''
                   @ ''[140234, 0.002] WARN:  disk low'' @ [CHR 0x0A]))"
  using open_appends [where p = "''out.log''" and w = example_world_old and s = logstream_init
      and w' = "fst (logstream_open ''out.log'' (example_world_old, logstream_init))"
      and s' = "snd (logstream_open ''out.log'' (example_world_old, logstream_init))"
      and lg = "(logger_init 0 Trace)\<lparr>m_lstrm := snd (logstream_open ''out.log'' (example_world_old, logstream_init))\<rparr>"
      and m = Call_warning and c = example_caller and msgs = "[''disk'', '' '', ''low'']"]
    can_open_example_old
  by (simp del: logstream_open.simps
      add: logger_init_def level_ge_def example_world_old_def content_of_def example_caller_def
        msg_prefix_def elapsed_time_def setw5_def fixed3_def show_nat_0 digit_char_def)

subsection \<open>The states of a sink\<close>

lemma os_flush_frame:
  "os_flush (w, s) = (w', s') \<Longrightarrow>
   rdbuf s' = rdbuf s \<and> fb_file (m_filebuf s') = fb_file (m_filebuf s)
   \<and> failbit s' = failbit s \<and> badbit s' = badbit s"
  by (auto split: if_splits streambuf_ref.splits option.splits)


lemma logstream_close_inv:
  assumes "logstream_close (w, s) = (w', s')"
  shows "\<not> is_open s'" and "is_open s \<Longrightarrow> rdbuf s' = Clog_rdbuf" and "\<not> is_open s \<Longrightarrow> rdbuf s' = rdbuf s"
proof -
  obtain w1 s1 where f: "os_flush (w, s) = (w1, s1)" by (cases "os_flush (w, s)")
  note fr = os_flush_frame [OF f]
  obtain w2 fb2 where c: "filebuf_close (w1, m_filebuf s1) = (w2, fb2)"
    by (cases "filebuf_close (w1, m_filebuf s1)")
  then have fb2: "fb_file fb2 = None"
    by (auto split: option.splits)
  have s': "s' = (if is_open s1 then set_rdbuf Clog_rdbuf (s1\<lparr>m_filebuf := fb2\<rparr>) else s1)"
    using assms f c by (simp del: os_flush.simps filebuf_close.simps split: if_splits)
  have o: "is_open s1 = is_open s"
    using fr by (simp add: is_open_def filebuf_is_open_def)
  show "\<not> is_open s'"
    using s' fb2 by (simp add: is_open_def filebuf_is_open_def set_rdbuf_def clear_state_def)
  show "is_open s \<Longrightarrow> rdbuf s' = Clog_rdbuf"
    using s' o by (simp add: set_rdbuf_def clear_state_def)
  show "\<not> is_open s \<Longrightarrow> rdbuf s' = rdbuf s"
    using s' o fr by simp
qed





declare logstream_close.simps [simp del] logstream_open.simps [simp del]
  os_insert.simps [simp del] os_flush.simps [simp del]

lemma failed_open_dangling:
  assumes "\<not> can_open w p" and "logstream_open p (w, s) = (w', s')"
  shows "good s' \<and> dangling s'"
proof -
  obtain w1 s1 where c: "(if is_open s then logstream_close (w, s) else (w, s)) = (w1, s1)"
    by (cases "if is_open s then logstream_close (w, s) else (w, s)")
  have closed: "\<not> is_open s1"
    using c logstream_close_inv(1) by (auto split: if_splits)
  have "files_extended w w1"
    using c logstream_close_extends by (auto simp: files_extended_refl split: if_splits)
  then have can: "\<not> can_open w1 p"
    using assms(1) by (simp add: files_extended_def)
  have f: "filebuf_open p flags (w1, m_filebuf s1) = (False, w1, m_filebuf s1)"
    using can by (simp add: fopen_mode_flags fopen_def)
  obtain w4 s4 where g: "os_flush (w1, setstate_failbit s1) = (w4, s4)"
    by (cases "os_flush (w1, setstate_failbit s1)")
  have "s' = set_rdbuf Own_filebuf s4"
    using assms(2) c f g
    by (simp del: filebuf_open.simps add: logstream_open.simps Let_def)
  moreover have "fb_file (m_filebuf s4) = fb_file (m_filebuf s1)"
    using os_flush_frame [OF g] by (simp add: setstate_failbit_def)
  ultimately show ?thesis
    using closed
    by (simp add: dangling_def good_def is_open_def filebuf_is_open_def set_rdbuf_def clear_state_def)
qed

lemma dangling_flush: "dangling s \<Longrightarrow> os_flush (w, s) = (w, s)"
  by (simp add: os_flush.simps dangling_def is_open_def filebuf_is_open_def)

lemma dangling_close: "dangling s \<Longrightarrow> logstream_close (w, s) = (w, s)"
  by (simp add: logstream_close.simps dangling_flush) (simp add: dangling_def)

lemma dangling_insert:
  "dangling s \<Longrightarrow> msg \<noteq> [] \<Longrightarrow>
   os_insert msg (w, s) = (w, if good s then setstate_badbit s else s)"
  by (simp add: os_insert.simps dangling_def is_open_def filebuf_sputn_def)

lemma dangling_flush_insert:
  assumes "dangling s" and "msg \<noteq> []"
  shows "os_flush (os_insert msg (w, s)) = (w, if good s then setstate_badbit s else s)"
proof -
  have "\<not> good (setstate_badbit s)" by (simp add: good_def setstate_badbit_def)
  then show ?thesis
    using assms by (simp add: dangling_insert os_flush.simps)
qed


lemma failed_open_eval:
  "sink_run [Op_open ''missing/out.log''] example_world
   = (example_world, snd (sink_run [Op_open ''missing/out.log''] example_world))
   \<and> good (snd (sink_run [Op_open ''missing/out.log''] example_world))
   \<and> dangling (snd (sink_run [Op_open ''missing/out.log''] example_world))"
proof -
  have no: "\<not> can_open example_world ''missing/out.log''"
    by (simp add: example_world_def)
  obtain w' s' where o: "logstream_open ''missing/out.log'' (example_world, logstream_init) = (w', s')"
    by (cases "logstream_open ''missing/out.log'' (example_world, logstream_init)")
  have "w' = example_world"
    using o no
    by (simp add: logstream_open.simps os_flush.simps logstream_init_def is_open_def
        filebuf_is_open_def fopen_mode_flags fopen_def setstate_failbit_def good_def)
  with failed_open_dangling [OF no o] o show ?thesis
    by (simp add: sink_run_def)
qed

lemma sink_run_snoc: "sink_run (ops @ [x]) w = sink_step (sink_run ops w) x"
  by (simp add: sink_run_def)

lemma failed_open_close_eval:
  "sink_run [Op_open ''missing/out.log'', Op_close] example_world
   = sink_run [Op_open ''missing/out.log''] example_world"
proof -
  let ?st = "sink_run [Op_open ''missing/out.log''] example_world"
  have "dangling (snd ?st)" using failed_open_eval by simp
  from dangling_close [OF this, of "fst ?st"]
  show ?thesis
    using sink_run_snoc [of "[Op_open ''missing/out.log'']" Op_close example_world] by simp
qed







text \<open>
  C3. After an open that fails, the stream of the sink reports \<^verbatim>\<open>good()\<close>: the
  \<^verbatim>\<open>failbit\<close> that \<^verbatim>\<open>open\<close> sets is cleared again by \<^verbatim>\<open>rdbuf(&m_filebuf)\<close>, so the
  stream is not in a failure state when \<^verbatim>\<open>open\<close> returns. And \<^verbatim>\<open>close()\<close> does not
  recover the sink: it finds no open file and leaves the stream on the file buffer that
  has none.
\<close>

theorem failed_open_leaves_stream_good:
  "good (snd (sink_run [Op_open ''missing/out.log''] example_world))
   \<and> \<not> working (snd (sink_run [Op_open ''missing/out.log'', Op_close] example_world))
   \<and> rdbuf (snd (sink_run [Op_open ''missing/out.log'', Op_close] example_world)) = Own_filebuf"
  using failed_open_eval by (simp add: failed_open_close_eval dangling_def working_def)


text \<open>
  C4. After an open that fails, \<^verbatim>\<open>close()\<close> leaves the sink on its file buffer, which
  has no open file: the console is not the destination, and a line written next reaches
  neither the console nor any file.
\<close>

theorem close_after_failed_open_not_console:
  "rdbuf (snd (sink_run [Op_open ''missing/out.log'', Op_close] example_world)) = Own_filebuf
   \<and> \<not> is_open (snd (sink_run [Op_open ''missing/out.log'', Op_close] example_world))
   \<and> fst (sink_run [Op_open ''missing/out.log'', Op_close, Op_insert ''lost'', Op_endl] example_world)
       = example_world
   \<and> \<not> good (snd (sink_run [Op_open ''missing/out.log'', Op_close, Op_insert ''lost'', Op_endl]
                       example_world))"
proof -
  let ?st = "sink_run [Op_open ''missing/out.log''] example_world"
  let ?ops = "[Op_open ''missing/out.log'', Op_close]"
  have d: "dangling (snd ?st)" and g: "good (snd ?st)" and w: "fst ?st = example_world"
    using failed_open_eval by (simp_all add: prod_eq_iff)
  have st: "sink_run ?ops example_world = (example_world, snd ?st)"
    using w by (simp add: failed_open_close_eval prod_eq_iff)
  have "os_endl (os_insert ''lost'' (example_world, snd ?st))
        = os_flush (os_insert (''lost'' @ [CHR 0x0A]) (example_world, snd ?st))"
    by (simp add: os_endl_def os_insert_append)
  also have "\<dots> = (example_world, setstate_badbit (snd ?st))"
    using dangling_flush_insert [OF d, of "''lost'' @ [CHR 0x0A]" example_world] g by simp
  finally have e: "sink_run (?ops @ [Op_insert ''lost'', Op_endl]) example_world
           = (example_world, setstate_badbit (snd ?st))"
    using st by (simp add: sink_run_def)
  show ?thesis
    using d e by (simp add: failed_open_close_eval dangling_def good_def setstate_badbit_def)
qed

lemma close_file_free:
  assumes "m_lstrm_mtx lg = None"
  shows "close_file c (w, lg) =
         Some (case logstream_close (w, m_lstrm lg) of (w', s') \<Rightarrow> (w', lg\<lparr>m_lstrm := s'\<rparr>))"
  using assms by (simp add: lock_stream_def unlock_stream_def split: prod.splits)

lemma close_file_held: "m_lstrm_mtx lg \<noteq> None \<Longrightarrow> close_file c (w, lg) = None"
  by (auto simp: lock_stream_def)

lemma open_file_free:
  assumes "m_lstrm_mtx lg = None"
  shows "open_file c p (w, lg) =
         Some (case logstream_open p (w, m_lstrm lg) of (w', s') \<Rightarrow> (w', lg\<lparr>m_lstrm := s'\<rparr>))"
  using assms by (simp add: lock_stream_def unlock_stream_def split: prod.splits)

lemma close_not_open: "\<not> is_open s \<Longrightarrow> logstream_close (w, s) = os_flush (w, s)"
proof -
  assume n: "\<not> is_open s"
  obtain w1 s1 where f: "os_flush (w, s) = (w1, s1)" by (cases "os_flush (w, s)")
  with os_flush_frame [OF f] n show ?thesis
    by (simp add: logstream_close.simps is_open_def filebuf_is_open_def)
qed

lemma flush_not_open:
  "\<not> is_open s \<Longrightarrow>
   os_flush (w, s) = (if good s \<and> rdbuf s = Clog_rdbuf then clog_sync w else w, s)"
  by (cases "rdbuf s") (simp_all add: os_flush.simps is_open_def filebuf_is_open_def)

lemma failed_open_state_eval:
  "failed_open_state = (example_world, (logger_init 0 Trace)\<lparr>m_lstrm := snd (sink_run [Op_open ''missing/out.log''] example_world)\<rparr>)"
proof -
  have ml: "m_lstrm (logger_init 0 Trace) = logstream_init" by (simp add: logger_init_def)
  have "m_lstrm_mtx (logger_init 0 Trace) = None" by (simp add: logger_init_def)
  from open_file_free [OF this] failed_open_eval show ?thesis
    by (simp add: failed_open_state_def sink_run_def prod_eq_iff ml split: prod.splits)
qed


text \<open>
  C7. On the logger whose \<^verbatim>\<open>open_file\<close> has failed, calling \<^verbatim>\<open>close_file\<close> twice
  gives the state that one call gives, but that state is not bound to the console: the
  sink still writes through its file buffer, which has no open file. \<^verbatim>\<open>close_file\<close>
  does not switch to console output there, for the reason given under C4.
\<close>

theorem close_file_twice_not_console:
  "Option.bind (close_file example_caller failed_open_state) (close_file example_caller)
     = Some failed_open_state
   \<and> rdbuf (m_lstrm (snd failed_open_state)) = Own_filebuf
   \<and> \<not> is_open (m_lstrm (snd failed_open_state))"
proof -
  let ?s = "snd (sink_run [Op_open ''missing/out.log''] example_world)"
  let ?lg = "(logger_init 0 Trace)\<lparr>m_lstrm := ?s\<rparr>"
  have d: "dangling ?s" using failed_open_eval by simp
  have "m_lstrm_mtx ?lg = None" by (simp add: logger_init_def)
  from close_file_free [OF this, of example_caller example_world]
  have "close_file example_caller failed_open_state = Some failed_open_state"
    by (simp add: failed_open_state_eval dangling_close [OF d])
  with d show ?thesis
    by (simp add: failed_open_state_eval dangling_def)
qed


text \<open>
  That a second \<^verbatim>\<open>close_file\<close> changes nothing more holds in every state: from any
  state of the logger in which \<^verbatim>\<open>close_file\<close> returns, a second call returns too and
  leaves the logger as the first call left it; it changes no file and no character bound
  for the console (it can only flush what \<^verbatim>\<open>std::clog\<close> still buffered, and changes
  nothing at all when that buffer is empty). When the sink was on the console or had its
  file open, the state reached is bound to the console with no file open.
\<close>

lemma close_file_idempotent:
  assumes "close_file c (w, lg) = Some (w1, lg1)"
  shows "\<exists>w2. close_file c' (w1, lg1) = Some (w2, lg1)
           \<and> files w2 = files w1 \<and> can_open w2 = can_open w1
           \<and> console w2 @ clog_pending w2 = console w1 @ clog_pending w1
           \<and> (clog_pending w1 = [] \<longrightarrow> w2 = w1)
           \<and> (rdbuf (m_lstrm lg) = Clog_rdbuf \<or> is_open (m_lstrm lg) \<longrightarrow>
                rdbuf (m_lstrm lg1) = Clog_rdbuf \<and> \<not> is_open (m_lstrm lg1))"
proof -
  have free: "m_lstrm_mtx lg = None"
    using assms close_file_held [of lg c w] by (cases "m_lstrm_mtx lg") auto
  obtain wa s1 where c1: "logstream_close (w, m_lstrm lg) = (wa, s1)"
    by (cases "logstream_close (w, m_lstrm lg)")
  have r: "w1 = wa" "lg1 = lg\<lparr>m_lstrm := s1\<rparr>"
    using assms close_file_free [OF free, of c w] c1 by simp_all
  note inv = logstream_close_inv [OF c1]
  have free1: "m_lstrm_mtx lg1 = None" and s1: "m_lstrm lg1 = s1"
    using r free by simp_all
  let ?w2 = "if good s1 \<and> rdbuf s1 = Clog_rdbuf then clog_sync w1 else w1"
  have "logstream_close (w1, s1) = (?w2, s1)"
    using inv(1) by (simp add: close_not_open flush_not_open)
  then have "close_file c' (w1, lg1) = Some (?w2, lg1)"
    using close_file_free [OF free1, of c' w1] s1 r by simp
  moreover have "rdbuf (m_lstrm lg) = Clog_rdbuf \<or> is_open (m_lstrm lg) \<longrightarrow>
                rdbuf (m_lstrm lg1) = Clog_rdbuf \<and> \<not> is_open (m_lstrm lg1)"
    using inv s1 by (cases "is_open (m_lstrm lg)") auto
  ultimately show ?thesis
    by (auto simp: clog_sync_def)
qed



subsection \<open>Swapping two loggers\<close>

lemma swap_run_eq_logger_swap:
  "swap_run 4 c this rhs (Swap_entry, h) = logger_swap c this rhs h"
proof (cases "this = rhs")
  case True
  then show ?thesis
    by (simp add: eval_nat_numeral logger_swap_def)
next
  case False
  then have r: "rhs \<noteq> this" by simp
  have keep: "(h(this := l)) rhs = h rhs" for l
    using r by simp
  show ?thesis
  proof (cases "lock_stream (this_thread c) (h this)")
    case None
    then show ?thesis using False by (simp add: eval_nat_numeral logger_swap_def)
  next
    case (Some l)
    note l = this
    show ?thesis
    proof (cases "lock_stream (this_thread c) (h rhs)")
      case None
      then show ?thesis using False l by (simp add: eval_nat_numeral logger_swap_def keep)
    next
      case (Some lr)
      then show ?thesis using False l r
        by (simp add: eval_nat_numeral logger_swap_def keep fun_upd_twist split: prod.splits)
    qed
  qed
qed

lemma self_swap_returns: "logger_swap c a a h = Some h"
  by (simp add: logger_swap_def)

lemma swap_free_returns:
  assumes "a \<noteq> b" and "m_lstrm_mtx (h a) = None" and "m_lstrm_mtx (h b) = None"
  shows "logger_swap c a b h \<noteq> None"
  using assms by (simp add: logger_swap_def lock_stream_def split: prod.splits)

text \<open>
  C9. Thread 1 runs \<^verbatim>\<open>a.swap(b)\<close> and thread 2 runs \<^verbatim>\<open>b.swap(a)\<close>, for the loggers
  \<open>a\<close> at address 0 and \<open>b\<close> at address 1. Thread 1 takes its first step and locks
  \<open>a\<close>; thread 2 takes its first step and locks \<open>b\<close>. Now thread 1 waits for the mutex
  of \<open>b\<close> and thread 2 for the mutex of \<open>a\<close>: neither can take a step, and neither has
  returned. (A swap of a logger with itself does return: \<open>self_swap_returns\<close>.)
\<close>

theorem swap_opposite_orders_deadlock:
  "swap_step thread_one 0 1 (Swap_entry, example_store) = Some (Swap_locked_this, store_one_lock)
   \<and> swap_step thread_two 1 0 (Swap_entry, store_one_lock) = Some (Swap_locked_this, store_two_locks)
   \<and> swap_step thread_one 0 1 (Swap_locked_this, store_two_locks) = None
   \<and> swap_step thread_two 1 0 (Swap_locked_this, store_two_locks) = None"
  by (simp add: example_store_def store_one_lock_def store_two_locks_def thread_one_def
      thread_two_def lock_stream_def logger_init_def)

subsection \<open>Several threads on one logger\<close>

lemma insert_working:
  assumes "working s" and "os_insert x (w, s) = (w', s')"
  shows "working s' \<and> sink_text w' s' = sink_text w s @ x"
  using assms
  by (cases "rdbuf s")
     (auto simp: os_insert.simps working_def good_def is_open_def filebuf_is_open_def
        filebuf_sputn_def sink_text_def sink_delivered_def sink_buffered_def
        split: prod.splits option.splits if_splits)

lemma endl_working:
  assumes "working s" and "os_endl (w, s) = (w', s')"
  shows "working s' \<and> sink_text w' s' = sink_text w s @ [CHR 0x0A]"
  using flush_insert_working [OF assms(1), of "[CHR 0x0A]" w w' s'] assms(2)
  by (simp add: os_endl_def sink_text_def)


lemma line_of_job:
  "line_of lg (m, c, msgs) = msg_prefix c lg @ level_tag m @ concat msgs @ [CHR 0x0A]"
  by (simp add: line_of_def)

lemma passes_job: "passes lg (m, c, msgs) = level_ge (severity m) (m_min_lvl_atm lg)"
  by (simp add: passes_def)

lemma msg_prefix_start:
  "m_start_time lg = m_start_time lg0 \<Longrightarrow> msg_prefix c lg = msg_prefix c lg0"
  by (simp add: msg_prefix_def elapsed_time_def)

lemma map_snd_update_same:
  "i < length ts \<Longrightarrow> snd (ts ! i) = js \<Longrightarrow> map snd (ts[i := (p, js)]) = map snd ts"
  by (simp add: map_update list_update_same_conv)

lemma emitted_lines_pop:
  "i < length xss \<Longrightarrow> xss ! i = j # js \<Longrightarrow>
   emitted_lines lg (concat (xss[i := js])) + (if passes lg j then {#line_of lg j#} else {#})
   = emitted_lines lg (concat xss)"
proof (induction xss arbitrary: i)
  case Nil
  then show ?case by simp
next
  case (Cons xs xss)
  show ?case
  proof (cases i)
    case 0
    with Cons.prems show ?thesis by (simp add: emitted_lines_def)
  next
    case (Suc k)
    with Cons.prems have "k < length xss" "xss ! k = j # js" by simp_all
    from Cons.IH [OF this] Suc show ?thesis
      by (simp add: emitted_lines_def ac_simps)
  qed
qed

lemma emitted_lines_pop_thread:
  assumes "i < length ts" and "ts ! i = (pc, j # js)"
  shows "emitted_lines lg (concat (map snd (ts[i := (p, js)])))
         + (if passes lg j then {#line_of lg j#} else {#})
         = emitted_lines lg (concat (map snd ts))"
  using emitted_lines_pop [of i "map snd ts" j js lg] assms
  by (simp add: map_update)


lemma not_outside_writing: "still_to_write pc = Some r \<Longrightarrow> \<not> outside pc"
  by (cases pc) (simp_all add: outside_def)

lemma sys_invI:
  assumes "working (m_lstrm lg)" and "m_start_time lg = m_start_time lg0"
    and "m_min_lvl_atm lg = m_min_lvl_atm lg0"
    and "\<forall>k < length ts. \<forall>j \<in> set (snd (ts ! k)). j \<in> set jobs \<and> this_thread (fst (snd j)) = k"
    and "\<forall>k < length ts. fst (ts ! k) \<noteq> At_gate \<longrightarrow> (\<exists>j js. snd (ts ! k) = j # js \<and> passes lg0 j)"
    and "mset lines + emitted_lines lg0 (concat (map snd ts)) = emitted_lines lg0 jobs"
    and "case m_lstrm_mtx lg of
               None \<Rightarrow> (\<forall>k < length ts. outside (fst (ts ! k)))
                        \<and> sink_text w (m_lstrm lg) = start @ concat lines
             | Some t \<Rightarrow> t < length ts
                 \<and> (\<forall>k < length ts. k \<noteq> t \<longrightarrow> outside (fst (ts ! k)))
                 \<and> (\<exists>j js r. snd (ts ! t) = j # js
                       \<and> still_to_write (fst (ts ! t)) = Some r
                       \<and> (\<exists>written. sink_text w (m_lstrm lg) = start @ concat lines @ written
                                  \<and> written @ r = line_of lg0 j))"
  shows "sys_inv start lg0 jobs (w, lg, ts)"
  unfolding sys_inv_def using assms by blast

lemma sys_inv_step:
  assumes inv: "sys_inv start lg0 jobs (w, lg, ts)"
    and step: "sys_step i (w, lg, ts) = Some (w', lg', ts')"
  shows "sys_inv start lg0 jobs (w', lg', ts')"
proof -
  from step have i: "i < length ts"
    by (simp split: if_splits)
  obtain pc js0 where ti: "ts ! i = (pc, js0)"
    by (cases "ts ! i")
  from step i ti obtain m c msgs js where js0: "js0 = (m, c, msgs) # js"
    by (cases js0) auto
  from step i ti js0 obtain pc' where
    cs: "call_step m c msgs (pc, w, lg) = Some (pc', w', lg')"
    and ts': "ts' = ts[i := (if pc' = Returned then (At_gate, js) else (pc', js0))]"
    by (auto split: option.splits)
  from inv have work: "working (m_lstrm lg)"
    and st: "m_start_time lg = m_start_time lg0"
    and lv: "m_min_lvl_atm lg = m_min_lvl_atm lg0"
    and wf: "\<forall>k < length ts. \<forall>j \<in> set (snd (ts ! k)). j \<in> set jobs \<and> this_thread (fst (snd j)) = k"
    and ps: "\<forall>k < length ts. fst (ts ! k) \<noteq> At_gate \<longrightarrow> (\<exists>j js. snd (ts ! k) = j # js \<and> passes lg0 j)"
    by (simp_all add: sys_inv_def)
  from inv obtain lines where
    cnt: "mset lines + emitted_lines lg0 (concat (map snd ts)) = emitted_lines lg0 jobs"
    and lk: "case m_lstrm_mtx lg of
               None \<Rightarrow> (\<forall>k < length ts. outside (fst (ts ! k)))
                        \<and> sink_text w (m_lstrm lg) = start @ concat lines
             | Some t \<Rightarrow> t < length ts
                 \<and> (\<forall>k < length ts. k \<noteq> t \<longrightarrow> outside (fst (ts ! k)))
                 \<and> (\<exists>j js r. snd (ts ! t) = j # js
                       \<and> still_to_write (fst (ts ! t)) = Some r
                       \<and> (\<exists>written. sink_text w (m_lstrm lg) = start @ concat lines @ written
                                  \<and> written @ r = line_of lg0 j))"
    by (auto simp: sys_inv_def)
  from wf i ti js0 have tid: "this_thread c = i"
    by auto
  have pass_iff: "passes lg0 (m, c, msgs) = level_ge (severity m) (m_min_lvl_atm lg)"
    by (simp add: passes_job lv)
  have wf': "\<forall>k < length ts'. \<forall>j \<in> set (snd (ts' ! k)). j \<in> set jobs \<and> this_thread (fst (snd j)) = k"
  proof (intro allI impI ballI)
    fix k j assume k: "k < length ts'" and j: "j \<in> set (snd (ts' ! k))"
    show "j \<in> set jobs \<and> this_thread (fst (snd j)) = k"
    proof (cases "k = i")
      case True
      with j ts' i have "j \<in> set js0" by (auto simp: js0 split: if_splits)
      with wf i ti True show ?thesis by auto
    next
      case False
      with j ts' k wf show ?thesis by auto
    qed
  qed
  have ps_keep: "\<forall>k < length ts'. fst (ts' ! k) \<noteq> At_gate \<longrightarrow>
                   (\<exists>j js. snd (ts' ! k) = j # js \<and> passes lg0 j)"
    if "pc' \<noteq> Returned \<Longrightarrow> passes lg0 (m, c, msgs)"
  proof (intro allI impI)
    fix k assume k: "k < length ts'" and g: "fst (ts' ! k) \<noteq> At_gate"
    show "\<exists>j js. snd (ts' ! k) = j # js \<and> passes lg0 j"
    proof (cases "k = i")
      case True
      with g ts' i that show ?thesis by (auto simp: js0 split: if_splits)
    next
      case False
      with g ts' k ps show ?thesis by auto
    qed
  qed
  have cnt_keep: "mset lines + emitted_lines lg0 (concat (map snd ts')) = emitted_lines lg0 jobs"
    if "pc' \<noteq> Returned"
    using that cnt i ti by (simp add: ts' map_snd_update_same)
  have holder: "pc = At_insert xs \<or> pc = At_unlock \<Longrightarrow>
      m_lstrm_mtx lg = Some i \<and> (\<forall>k < length ts. k \<noteq> i \<longrightarrow> outside (fst (ts ! k)))
      \<and> (\<exists>r written. still_to_write pc = Some r
            \<and> sink_text w (m_lstrm lg) = start @ concat lines @ written
            \<and> written @ r = line_of lg0 (m, c, msgs))" for xs
  proof -
    assume pc: "pc = At_insert xs \<or> pc = At_unlock"
    then have no: "\<not> outside pc" by (auto simp: outside_def)
    show ?thesis
    proof (cases "m_lstrm_mtx lg")
      case None
      with lk i ti no show ?thesis by auto
    next
      case (Some t)
      with lk i ti no have "t = i" by auto
      with Some lk ti js0 show ?thesis by auto
    qed
  qed
  show ?thesis
  proof (cases pc)
    case At_gate
    with cs have eq: "w' = w" "lg' = lg"
      and pc': "pc' = (if passes lg0 (m, c, msgs) then At_lock else Returned)"
      by (auto simp: pass_iff)
    have out: "outside (fst (if pc' = Returned then (At_gate, js) else (pc', js0)))"
      by (simp add: pc' outside_def)
    have other: "m_lstrm_mtx lg = Some t \<Longrightarrow> t \<noteq> i" for t
      using lk ti At_gate by auto
    have lk': "case m_lstrm_mtx lg of
               None \<Rightarrow> (\<forall>k < length ts'. outside (fst (ts' ! k)))
                        \<and> sink_text w (m_lstrm lg) = start @ concat lines
             | Some t \<Rightarrow> t < length ts'
                 \<and> (\<forall>k < length ts'. k \<noteq> t \<longrightarrow> outside (fst (ts' ! k)))
                 \<and> (\<exists>j js r. snd (ts' ! t) = j # js
                       \<and> still_to_write (fst (ts' ! t)) = Some r
                       \<and> (\<exists>written. sink_text w (m_lstrm lg) = start @ concat lines @ written
                                  \<and> written @ r = line_of lg0 j))"
    proof (cases "m_lstrm_mtx lg")
      case None
      with lk out i show ?thesis
        by (auto simp: ts' nth_list_update)
    next
      case (Some t)
      with other have "t \<noteq> i" by simp
      with Some lk out i show ?thesis
        by (auto simp: ts' nth_list_update)
    qed
    have cnt': "mset lines + emitted_lines lg0 (concat (map snd ts')) = emitted_lines lg0 jobs"
    proof (cases "pc' = Returned")
      case True
      then have np: "\<not> passes lg0 (m, c, msgs)" by (simp add: pc' split: if_splits)
      from emitted_lines_pop_thread [OF i ti [unfolded js0], of lg0 At_gate] np cnt True
      show ?thesis by (simp add: ts')
    next
      case False
      then show ?thesis by (rule cnt_keep)
    qed
    have "pc' \<noteq> Returned \<Longrightarrow> passes lg0 (m, c, msgs)"
      by (simp add: pc' split: if_splits)
    from ps_keep [OF this] work st lv wf' cnt' lk' show ?thesis
      unfolding eq by (intro sys_invI [where lines = lines]) auto
  next
    case At_lock
    with cs have free: "m_lstrm_mtx lg = None"
      by (auto simp: lock_stream_def split: option.splits)
    with cs At_lock tid have eq: "w' = w" "lg' = lg\<lparr>m_lstrm_mtx := Some i\<rparr>"
      and pc': "pc' = At_insert (msg_prefix c lg0 # level_tag m # msgs)"
      by (auto simp: lock_stream_def msg_prefix_start [OF st] msg_prefix_lock)
    from free lk have outs: "\<forall>k < length ts. outside (fst (ts ! k))"
      and stxt: "sink_text w (m_lstrm lg) = start @ concat lines"
      by auto
    from ps i ti At_lock js0 have pj: "passes lg0 (m, c, msgs)" by auto
    have "i < length ts' \<and> (\<forall>k < length ts'. k \<noteq> i \<longrightarrow> outside (fst (ts' ! k)))
          \<and> (\<exists>j js r. snd (ts' ! i) = j # js \<and> still_to_write (fst (ts' ! i)) = Some r
                \<and> (\<exists>written. sink_text w (m_lstrm lg) = start @ concat lines @ written
                                  \<and> written @ r = line_of lg0 j))"
      using i outs stxt by (auto simp: ts' pc' js0 line_of_job)
    with work st lv wf' ps_keep [OF pj] cnt_keep show ?thesis
      unfolding eq by (intro sys_invI [where lines = lines]) (auto simp: pc')
  next
    case (At_insert xs)
    from holder [of xs] At_insert have mtx: "m_lstrm_mtx lg = Some i"
      and outs: "\<forall>k < length ts. k \<noteq> i \<longrightarrow> outside (fst (ts ! k))"
      and stxt: "\<exists>written. sink_text w (m_lstrm lg) = start @ concat lines @ written
                  \<and> written @ concat xs @ [CHR 0x0A] = line_of lg0 (m, c, msgs)"
      by auto
    from ps i ti At_insert js0 have pj: "passes lg0 (m, c, msgs)" by auto
    show ?thesis
    proof (cases xs)
      case Nil
      obtain w1 s1 where e: "os_endl (w, m_lstrm lg) = (w1, s1)"
        by (cases "os_endl (w, m_lstrm lg)")
      with cs At_insert Nil have eq: "w' = w1" "lg' = lg\<lparr>m_lstrm := s1\<rparr>" and pc': "pc' = At_unlock"
        by auto
      note ew = endl_working [OF work e]
      have "i < length ts' \<and> (\<forall>k < length ts'. k \<noteq> i \<longrightarrow> outside (fst (ts' ! k)))
          \<and> (\<exists>j js r. snd (ts' ! i) = j # js \<and> still_to_write (fst (ts' ! i)) = Some r
                \<and> (\<exists>written. sink_text w1 s1 = start @ concat lines @ written
                                  \<and> written @ r = line_of lg0 j))"
        using i outs stxt ew Nil by (auto simp: ts' pc' js0)
      with ew st lv wf' ps_keep [OF pj] cnt_keep mtx show ?thesis
        unfolding eq by (intro sys_invI [where lines = lines]) (auto simp: pc')
    next
      case (Cons x xs')
      obtain w1 s1 where e: "os_insert x (w, m_lstrm lg) = (w1, s1)"
        by (cases "os_insert x (w, m_lstrm lg)")
      with cs At_insert Cons have eq: "w' = w1" "lg' = lg\<lparr>m_lstrm := s1\<rparr>" and pc': "pc' = At_insert xs'"
        by auto
      note ew = insert_working [OF work e]
      have "i < length ts' \<and> (\<forall>k < length ts'. k \<noteq> i \<longrightarrow> outside (fst (ts' ! k)))
          \<and> (\<exists>j js r. snd (ts' ! i) = j # js \<and> still_to_write (fst (ts' ! i)) = Some r
                \<and> (\<exists>written. sink_text w1 s1 = start @ concat lines @ written
                                  \<and> written @ r = line_of lg0 j))"
        using i outs stxt ew Cons by (auto simp: ts' pc' js0)
      with ew st lv wf' ps_keep [OF pj] cnt_keep mtx show ?thesis
        unfolding eq by (intro sys_invI [where lines = lines]) (auto simp: pc')
    qed
  next
    case At_unlock
    from holder [of "[]"] At_unlock have mtx: "m_lstrm_mtx lg = Some i"
      and outs: "\<forall>k < length ts. k \<noteq> i \<longrightarrow> outside (fst (ts ! k))"
      and stxt: "sink_text w (m_lstrm lg) = start @ concat lines @ line_of lg0 (m, c, msgs)"
      by auto
    from ps i ti At_unlock js0 have pj: "passes lg0 (m, c, msgs)" by auto
    from cs At_unlock have eq: "w' = w" "lg' = unlock_stream lg" and pc': "pc' = Returned"
      by auto
    let ?lines = "lines @ [line_of lg0 (m, c, msgs)]"
    from emitted_lines_pop_thread [OF i ti [unfolded js0], of lg0 At_gate] pj
    have e1: "emitted_lines lg0 (concat (map snd ts)) =
              add_mset (line_of lg0 (m, c, msgs))
                (emitted_lines lg0 (concat (map snd (ts[i := (At_gate, js)]))))"
      by simp
    have cnt': "mset ?lines + emitted_lines lg0 (concat (map snd ts')) = emitted_lines lg0 jobs"
      using cnt unfolding e1 by (simp add: ts' pc')
    have "(\<forall>k < length ts'. outside (fst (ts' ! k)))
          \<and> sink_text w (m_lstrm lg) = start @ concat ?lines"
      using outs stxt i by (auto simp: ts' pc' nth_list_update outside_def)
    with work st lv wf' cnt' ps_keep show ?thesis
      unfolding eq by (intro sys_invI [where lines = ?lines]) (auto simp: unlock_stream_def pc')
  next
    case Returned
    with cs show ?thesis by simp
  qed
qed


lemma sys_inv_run:
  "sys_inv start lg0 jobs cfg \<Longrightarrow> sys_run sch cfg = Some cfg' \<Longrightarrow> sys_inv start lg0 jobs cfg'"
proof (induction sch arbitrary: cfg)
  case Nil
  then show ?case by simp
next
  case (Cons i sch)
  obtain w lg ts where cfg: "cfg = (w, lg, ts)" by (cases cfg)
  from Cons.prems(2) obtain cfg1 where s: "sys_step i (w, lg, ts) = Some cfg1"
    and r: "sys_run sch cfg1 = Some cfg'"
    by (auto simp: cfg simp del: sys_step.simps split: bind_splits)
  obtain w1 lg1 ts1 where cfg1: "cfg1 = (w1, lg1, ts1)" by (cases cfg1)
  from sys_inv_step [OF Cons.prems(1) [unfolded cfg] s [unfolded cfg1]]
  have "sys_inv start lg0 jobs cfg1" by (simp add: cfg1)
  from Cons.IH [OF this r] show ?case .
qed

lemma sys_inv_initial:
  assumes "working (m_lstrm lg)" and "m_lstrm_mtx lg = None"
    and "\<forall>i < length progs. \<forall>j \<in> set (progs ! i). this_thread (fst (snd j)) = i"
  shows "sys_inv (sink_text w (m_lstrm lg)) lg (concat progs) (w, lg, map (Pair At_gate) progs)"
proof (rule sys_invI [where lines = "[]"])
  have m: "map snd (map (Pair At_gate) progs) = progs"
    by (simp add: comp_def)
  show "mset [] + emitted_lines lg (concat (map snd (map (Pair At_gate) progs)))
        = emitted_lines lg (concat progs)"
    by (simp only: m) simp
  show "\<forall>k<length (map (Pair At_gate) progs).
          \<forall>j\<in>set (snd (map (Pair At_gate) progs ! k)). j \<in> set (concat progs) \<and> this_thread (fst (snd j)) = k"
    using assms(3) by auto
qed (use assms in \<open>auto simp: outside_def\<close>)

text \<open>
  C2. Threads \<open>0, \<dots>, N - 1\<close> each make a list of logging calls on one shared logger
  whose sink works and whose mutex is free, and take their steps in any order (a step
  that needs the mutex waits until it is free). At every moment of every such run, the
  text at the destination of the sink is the text that was there at the start, followed
  by whole lines, each the line of one of the calls, followed by the part written so far
  of the line of the one thread that holds the mutex (nothing, when the mutex is free).
  When all calls have returned, the lines are, as a multiset, exactly the lines of the
  calls that passed the level test: one whole line for each of them.
\<close>

theorem lines_not_interleaved:
  assumes "working (m_lstrm lg)" and "m_lstrm_mtx lg = None"
    and "\<forall>i < length progs. \<forall>j \<in> set (progs ! i). this_thread (fst (snd j)) = i"
    and "sys_run sch (w, lg, map (Pair At_gate) progs) = Some (w', lg', ts)"
  shows "\<exists>lines rest.
           sink_text w' (m_lstrm lg') = sink_text w (m_lstrm lg) @ concat lines @ rest
           \<and> (\<forall>l \<in> set lines. \<exists>j \<in> set (concat progs). l = line_of lg j)
           \<and> (m_lstrm_mtx lg' = None \<longrightarrow> rest = [])
           \<and> (\<forall>t. m_lstrm_mtx lg' = Some t \<longrightarrow>
                 (\<exists>j \<in> set (concat progs). \<exists>more.
                    this_thread (fst (snd j)) = t \<and> rest @ more = line_of lg j))
           \<and> (all_returned ts \<longrightarrow> rest = [] \<and> mset lines = emitted_lines lg (concat progs))"
proof -
  let ?start = "sink_text w (m_lstrm lg)" and ?jobs = "concat progs"
  have "sys_inv ?start lg ?jobs (w', lg', ts)"
    using sys_inv_run [OF sys_inv_initial [OF assms(1-3)] assms(4)] .
  then have wf: "\<forall>k < length ts. \<forall>j \<in> set (snd (ts ! k)). j \<in> set ?jobs \<and> this_thread (fst (snd j)) = k"
    and ex: "\<exists>lines. mset lines + emitted_lines lg (concat (map snd ts)) = emitted_lines lg ?jobs
            \<and> (case m_lstrm_mtx lg' of
                    None \<Rightarrow>
                      (\<forall>i < length ts. outside (fst (ts ! i)))
                      \<and> sink_text w' (m_lstrm lg') = ?start @ concat lines
                  | Some t \<Rightarrow>
                      t < length ts
                      \<and> (\<forall>i < length ts. i \<noteq> t \<longrightarrow> outside (fst (ts ! i)))
                      \<and> (\<exists>j js r. snd (ts ! t) = j # js
                            \<and> still_to_write (fst (ts ! t)) = Some r
                            \<and> (\<exists>written. sink_text w' (m_lstrm lg') = ?start @ concat lines @ written
                                  \<and> written @ r = line_of lg j)))"
    by (simp_all add: sys_inv_def)
  from ex obtain lines where
    cnt: "mset lines + emitted_lines lg (concat (map snd ts)) = emitted_lines lg ?jobs"
    and lk: "case m_lstrm_mtx lg' of
                    None \<Rightarrow>
                      (\<forall>i < length ts. outside (fst (ts ! i)))
                      \<and> sink_text w' (m_lstrm lg') = ?start @ concat lines
                  | Some t \<Rightarrow>
                      t < length ts
                      \<and> (\<forall>i < length ts. i \<noteq> t \<longrightarrow> outside (fst (ts ! i)))
                      \<and> (\<exists>j js r. snd (ts ! t) = j # js
                            \<and> still_to_write (fst (ts ! t)) = Some r
                            \<and> (\<exists>written. sink_text w' (m_lstrm lg') = ?start @ concat lines @ written
                                  \<and> written @ r = line_of lg j))"
    by blast
  have lines: "\<forall>l \<in> set lines. \<exists>j \<in> set ?jobs. l = line_of lg j"
  proof
    fix l assume "l \<in> set lines"
    then have "l \<in># mset lines + emitted_lines lg (concat (map snd ts))" by simp
    then have "l \<in># emitted_lines lg ?jobs" by (simp only: cnt)
    then show "\<exists>j \<in> set ?jobs. l = line_of lg j"
      by (auto simp: emitted_lines_def)
  qed
  show ?thesis
  proof (cases "m_lstrm_mtx lg'")
    case None
    with lk have t: "sink_text w' (m_lstrm lg') = ?start @ concat lines @ []" by simp
    have "all_returned ts \<longrightarrow> mset lines = emitted_lines lg ?jobs"
    proof
      assume "all_returned ts"
      then have "concat (map snd ts) = []" by (simp add: all_returned_def)
      with cnt show "mset lines = emitted_lines lg ?jobs"
        by (simp add: emitted_lines_def)
    qed
    with t lines None show ?thesis
      by (intro exI [where x = lines] exI [where x = "[]"]) simp
  next
    case (Some t)
    with lk obtain j js r written where t: "t < length ts" and j: "snd (ts ! t) = j # js"
      and r: "sink_text w' (m_lstrm lg') = ?start @ concat lines @ written"
      and wr: "written @ r = line_of lg j"
      by auto
    from wf t j have jj: "j \<in> set ?jobs" and tj: "this_thread (fst (snd j)) = t"
      by auto
    have "ts ! t \<in> set ts" and "snd (ts ! t) \<noteq> []"
      using t j by simp_all
    then have "\<not> all_returned ts"
      unfolding all_returned_def by (simp, blast)
    with r wr lines Some jj tj show ?thesis
      by (intro exI [where x = lines] exI [where x = written]) auto
  qed
qed


lemma call_run_insert:
  "call_run (Suc (Suc (Suc (length xs)))) m c msgs (At_insert xs, w, lg) =
   (case os_endl (foldl (\<lambda>st x. os_insert x st) (w, m_lstrm lg) xs) of
      (w', s') \<Rightarrow> Some (w', unlock_stream (lg\<lparr>m_lstrm := s'\<rparr>)))"
proof (induction xs arbitrary: w lg)
  case Nil
  then show ?case by (simp split: prod.splits)
next
  case (Cons x xs)
  obtain w1 s1 where i: "os_insert x (w, m_lstrm lg) = (w1, s1)"
    by (cases "os_insert x (w, m_lstrm lg)")
  have "call_run (Suc (Suc (Suc (length (x # xs))))) m c msgs (At_insert (x # xs), w, lg)
        = call_run (Suc (Suc (Suc (length xs)))) m c msgs (At_insert xs, w1, lg\<lparr>m_lstrm := s1\<rparr>)"
    using i by simp
  also note Cons.IH
  finally show ?case
    using i by (simp add: unlock_stream_def split: prod.splits)
qed

lemma call_run_eq_call:
  "call_run (length msgs + 7) m c msgs (At_gate, w, lg) = call m c msgs (w, lg)"
proof (cases "level_ge (severity m) (m_min_lvl_atm lg)")
  case False
  then show ?thesis
    by (simp add: call_suppressed eval_nat_numeral)
next
  case True
  note pass = this
  show ?thesis
  proof (cases "lock_stream (this_thread c) lg")
    case None
    then show ?thesis
      using pass by (simp add: call_passing write_line.simps eval_nat_numeral)
  next
    case (Some l)
    let ?xs = "msg_prefix c l # level_tag m # msgs"
    have "call_run (length msgs + 7) m c msgs (At_gate, w, lg)
          = call_run (Suc (Suc (Suc (length ?xs)))) m c msgs (At_insert ?xs, w, l)"
      using pass Some by (simp add: eval_nat_numeral)
    also have "\<dots> = (case os_endl (foldl (\<lambda>st x. os_insert x st) (w, m_lstrm l) ?xs) of
                        (w', s') \<Rightarrow> Some (w', unlock_stream (l\<lparr>m_lstrm := s'\<rparr>)))"
      by (rule call_run_insert)
    also have "\<dots> = call m c msgs (w, lg)"
      using pass Some by (simp add: call_passing write_line.simps split: prod.splits)
    finally show ?thesis .
  qed
qed

lemma example_run:
  "sys_run example_schedule (example_world, logger_init 0 Trace, map (Pair At_gate) two_threads)
   = Some (example_final_world, logger_init 0 Trace, [(At_gate, []), (At_gate, [])])"
  by (simp add: example_schedule_def two_threads_def example_world_def example_final_world_def
      logger_init_def logstream_init_def level_ge_def lock_stream_def unlock_stream_def
      os_insert.simps os_flush.simps os_endl_def good_def clog_sync_def
      msg_prefix_def elapsed_time_def setw5_def fixed3_def show_nat_0 digit_char_def)

theorem lines_not_interleaved_witness:
  "sys_run example_schedule (example_world, logger_init 0 Trace, map (Pair At_gate) two_threads)
     = Some (example_final_world, logger_init 0 Trace, [(At_gate, []), (At_gate, [])])
   \<and> (\<exists>lines. console example_final_world = concat lines
         \<and> mset lines = emitted_lines (logger_init 0 Trace) (concat two_threads))"
proof -
  have w: "working (m_lstrm (logger_init 0 Trace))" and f: "m_lstrm_mtx (logger_init 0 Trace) = None"
    by (simp_all add: logger_init_def logstream_init_def working_def good_def)
  have t: "\<forall>i < length two_threads. \<forall>j \<in> set (two_threads ! i). this_thread (fst (snd j)) = i"
    by (simp add: two_threads_def less_Suc_eq)
  have a: "all_returned [(At_gate, []), (At_gate, [])]"
    by (simp add: all_returned_def)
  have s0: "sink_text example_world (m_lstrm (logger_init 0 Trace)) = []"
    by (simp add: sink_text_def sink_delivered_def sink_buffered_def logger_init_def
        logstream_init_def example_world_def)
  have s1: "sink_text example_final_world (m_lstrm (logger_init 0 Trace)) = console example_final_world"
    by (simp add: sink_text_def sink_delivered_def sink_buffered_def logger_init_def
        logstream_init_def example_world_def example_final_world_def)
  from lines_not_interleaved [OF w f t example_run] a s0 s1 example_run show ?thesis
    by auto
qed

end
